theory Spec2Isabelle
  imports Main "HOL-Library.AList"
begin

unbundle bit_operations_syntax

section \<open>Errors\<close>

text \<open>
  The exceptions the Python code can raise become values: every function that can fail
  returns \<open>error + 'a\<close>, with \<open>Inl\<close> the exception.
\<close>

datatype error = AssertionError | KeyError | IndexError | ValueError | AttributeError

section \<open>Formulas (propositions/syntax.py, not among the sources)\<close>

text \<open>
  Modelled from the spec: the class \<open>Formula\<close> of propositions/syntax.py is missing.
  The spec describes it as an immutable tree whose node is a variable name, a boolean
  constant, a unary node (operator and one child) or a binary node (operator and two
  children), with structural equality. The operators are kept as the strings the
  sources write: \<open>Formula('->', a, b)\<close> is \<open>Binary ''->'' a b\<close>, \<open>Formula('~', a)\<close> is
  \<open>Unary ''~'' a\<close>, \<open>Formula('p')\<close> is \<open>Variable ''p''\<close>, and the constants
  \<open>Formula('T')\<close> and \<open>Formula('F')\<close> are \<open>Constant True\<close> and \<open>Constant False\<close>.
\<close>

datatype Formula =
    Constant bool
  | Variable string
  | Unary string Formula
  | Binary string Formula Formula

text \<open>
  Modelled from the spec: \<open>is_variable\<close> of propositions/syntax.py is missing. The spec
  gives the syntax of a variable as a letter followed by digits, and \<open>T\<close> and \<open>F\<close> as
  the constants; the model takes a lower-case letter followed by decimal digits.
\<close>

definition is_variable :: "string \<Rightarrow> bool" where
  "is_variable s =
     (case s of
        [] \<Rightarrow> False
      | c # cs \<Rightarrow> c \<in> set ''abcdefghijklmnopqrstuvwxyz'' \<and>
                 list_all (\<lambda>d. d \<in> set ''0123456789'') cs)"

text \<open>
  Modelled from the spec: \<open>Formula.variables()\<close> (variable-set extraction) is missing.
  Python returns a set, whose iteration order is not specified; the model lists the
  names without repetition, in the order of their first occurrence.
\<close>

fun formula_variables_list :: "Formula \<Rightarrow> string list" where
  "formula_variables_list (Constant b) = []"
| "formula_variables_list (Variable v) = [v]"
| "formula_variables_list (Unary r f) = formula_variables_list f"
| "formula_variables_list (Binary r f g) = formula_variables_list f @ formula_variables_list g"

definition formula_variables :: "Formula \<Rightarrow> string list" where
  "formula_variables f = remdups (formula_variables_list f)"

text \<open>
  The constructor of \<open>Formula\<close> asserts that a leaf is a variable name or a constant and
  that an operator is one of the unary or binary operators of the syntax. These are the
  trees that are Python objects of the class.
\<close>

fun is_formula :: "Formula \<Rightarrow> bool" where
  "is_formula (Constant b) = True"
| "is_formula (Variable v) = is_variable v"
| "is_formula (Unary r f) = (r = ''~'' \<and> is_formula f)"
| "is_formula (Binary r f g) =
     (r \<in> set [''&'', ''|'', ''->'', ''+'', ''<->'', ''-&'', ''-|''] \<and> is_formula f \<and> is_formula g)"

section \<open>Semantics (propositions/semantics.py)\<close>

text \<open>
  A model is a Python dict from variable names to truth values. A dict keeps its keys in
  the order of their first insertion and an assignment to a key that is present keeps
  the key's place: that is \<open>AList.update\<close> on an association list.
\<close>

type_synonym Model = "(string \<times> bool) list"

definition is_model :: "Model \<Rightarrow> bool" where
  "is_model model = list_all (\<lambda>key. is_variable key) (map fst model)"

definition variables :: "Model \<Rightarrow> error + string list" where
  "variables model = (if \<not> is_model model then Inl AssertionError else Inr (map fst model))"

text \<open>
  \<open>evaluate\<close>: the two assertions are checked on every call, also on the recursive
  ones. An operator that is none of those the function tests falls through to the final
  \<open>return False\<close>.
\<close>

fun evaluate :: "Formula \<Rightarrow> Model \<Rightarrow> error + bool" where
  "evaluate (Constant b) model =
     (if \<not> is_model model then Inl AssertionError
      else Inr b)"
| "evaluate (Variable v) model =
     (if \<not> is_model model then Inl AssertionError
      else if \<not> set (formula_variables (Variable v)) \<subseteq> set (map fst model) then Inl AssertionError
      else (case map_of model v of None \<Rightarrow> Inl KeyError | Some b \<Rightarrow> Inr b))"
| "evaluate (Unary r f) model =
     (if \<not> is_model model then Inl AssertionError
      else if \<not> set (formula_variables (Unary r f)) \<subseteq> set (map fst model) then Inl AssertionError
      else if r = ''~'' then
        (case evaluate f model of Inl e \<Rightarrow> Inl e | Inr b \<Rightarrow> Inr (\<not> b))
      else Inr False)"
| "evaluate (Binary r f g) model =
     (if \<not> is_model model then Inl AssertionError
      else if \<not> set (formula_variables (Binary r f g)) \<subseteq> set (map fst model) then Inl AssertionError
      else if r \<in> set [''&'', ''|'', ''->'', ''+'', ''<->'', ''-&'', ''-|''] then
        (case evaluate f model of
           Inl e \<Rightarrow> Inl e
         | Inr left \<Rightarrow>
             (case evaluate g model of
                Inl e \<Rightarrow> Inl e
              | Inr right \<Rightarrow>
                  if r = ''&'' then Inr (left \<and> right)
                  else if r = ''|'' then Inr (left \<or> right)
                  else if r = ''->'' then Inr ((\<not> left) \<or> right)
                  else if r = ''+'' then Inr (left \<noteq> right)
                  else if r = ''<->'' then Inr (left = right)
                  else if r = ''-&'' then Inr (\<not> (left \<and> right))
                  else if r = ''-|'' then Inr (\<not> (left \<or> right))
                  else Inr False))
      else Inr False)"

text \<open>
  \<open>all_models\<close>: a generator; its assertions run when the iteration starts, and every
  caller here iterates at once, so the model returns the list of the models or the error.
  Model number \<open>i\<close> is built by the assignments \<open>model[variables[j]] = bool((i >> (n - 1 - j)) & 1)\<close>
  for \<open>j = 0, ..., n - 1\<close> on an empty dict.
\<close>

definition model_number :: "string list \<Rightarrow> nat \<Rightarrow> Model" where
  "model_number vs i =
     fold (\<lambda>j model. AList.update (vs ! j) ((drop_bit (length vs - 1 - j) i AND 1) \<noteq> 0) model)
          [0..<length vs] []"

definition all_models :: "string list \<Rightarrow> error + Model list" where
  "all_models vs =
     (if \<not> list_all is_variable vs then Inl AssertionError
      else Inr (map (model_number vs) [0..<2 ^ length vs]))"

text \<open>
  A list comprehension or a loop over results that can raise: the first exception, in
  the order of the iteration, is the result.
\<close>

fun collect :: "(error + 'a) list \<Rightarrow> error + 'a list" where
  "collect [] = Inr []"
| "collect (x # xs) =
     (case x of
        Inl e \<Rightarrow> Inl e
      | Inr v \<Rightarrow> (case collect xs of Inl e \<Rightarrow> Inl e | Inr vs \<Rightarrow> Inr (v # vs)))"

definition truth_values :: "Formula \<Rightarrow> Model list \<Rightarrow> error + bool list" where
  "truth_values formula models = collect (map (\<lambda>model. evaluate formula model) models)"

text \<open>
  Python's \<open>all\<close> and \<open>any\<close> over a generator expression: the elements are computed one
  at a time, \<open>all\<close> stops at the first false one and \<open>any\<close> at the first true one, and an
  exception raised by an element that is reached is the result.
\<close>

fun py_all :: "(error + bool) list \<Rightarrow> error + bool" where
  "py_all [] = Inr True"
| "py_all (x # xs) =
     (case x of Inl e \<Rightarrow> Inl e | Inr b \<Rightarrow> if b then py_all xs else Inr False)"

fun py_any :: "(error + bool) list \<Rightarrow> error + bool" where
  "py_any [] = Inr False"
| "py_any (x # xs) =
     (case x of Inl e \<Rightarrow> Inl e | Inr b \<Rightarrow> if b then Inr True else py_any xs)"

definition py_not :: "error + bool \<Rightarrow> error + bool" where
  "py_not x = (case x of Inl e \<Rightarrow> Inl e | Inr b \<Rightarrow> Inr (\<not> b))"

definition is_tautology :: "Formula \<Rightarrow> error + bool" where
  "is_tautology formula =
     (let vars_list = formula_variables formula in
      case all_models vars_list of
        Inl e \<Rightarrow> Inl e
      | Inr ms \<Rightarrow> py_all (map (\<lambda>m. evaluate formula m) ms))"

definition is_contradiction :: "Formula \<Rightarrow> error + bool" where
  "is_contradiction formula =
     (let vars_list = formula_variables formula in
      case all_models vars_list of
        Inl e \<Rightarrow> Inl e
      | Inr ms \<Rightarrow> py_all (map (\<lambda>m. py_not (evaluate formula m)) ms))"

definition is_satisfiable :: "Formula \<Rightarrow> error + bool" where
  "is_satisfiable formula =
     (let vars_list = formula_variables formula in
      case all_models vars_list of
        Inl e \<Rightarrow> Inl e
      | Inr ms \<Rightarrow> py_any (map (\<lambda>m. evaluate formula m) ms))"

text \<open>
  \<open>_synthesize_for_model\<close>: the loop runs over \<open>model.items()\<close> in the dict's order. The
  first item sets \<open>res\<close> to its atom and every later one conjoins its atom on the right;
  the second assertion makes the first item exist.
\<close>

definition synthesize_atom :: "string \<times> bool \<Rightarrow> Formula" where
  "synthesize_atom item =
     (case item of (var, val) \<Rightarrow> if val then Variable var else Unary ''~'' (Variable var))"

definition synthesize_for_model :: "Model \<Rightarrow> error + Formula" where
  "synthesize_for_model model =
     (if \<not> is_model model then Inl AssertionError
      else if \<not> length (map fst model) > 0 then Inl AssertionError
      else Inr (foldl (\<lambda>res item. Binary ''&'' res (synthesize_atom item))
                      (synthesize_atom (hd model)) (tl model)))"

text \<open>
  \<open>synthesize\<close>: \<open>zip\<close> stops at the shorter of the models and the values.
\<close>

definition synthesize :: "string list \<Rightarrow> bool list \<Rightarrow> error + Formula" where
  "synthesize vs vals =
     (if \<not> length vs > 0 then Inl AssertionError
      else
        case all_models vs of
          Inl e \<Rightarrow> Inl e
        | Inr models \<Rightarrow>
            (case collect (map (\<lambda>(model, val). synthesize_for_model model)
                               (filter (\<lambda>(model, val). val) (zip models vals))) of
               Inl e \<Rightarrow> Inl e
             | Inr clauses \<Rightarrow>
                 if clauses = [] then
                   Inr (Binary ''&'' (Variable (vs ! 0)) (Unary ''~'' (Variable (vs ! 0))))
                 else
                   Inr (foldl (\<lambda>res c. Binary ''|'' res c) (hd clauses) (tl clauses))))"

text \<open>
  Proof helpers, not in the sources: the truth value \<open>evaluate\<close> computes when its
  assertions hold, and the rows of truth values in lexicographic order with \<open>False\<close>
  before \<open>True\<close> and the first position the most significant, as the spec words the
  order of \<open>all_models\<close>.
\<close>

fun holds :: "Formula \<Rightarrow> Model \<Rightarrow> bool" where
  "holds (Constant b) model = b"
| "holds (Variable v) model = (map_of model v = Some True)"
| "holds (Unary r f) model = (r = ''~'' \<and> \<not> holds f model)"
| "holds (Binary r f g) model =
     (if r = ''&'' then holds f model \<and> holds g model
      else if r = ''|'' then holds f model \<or> holds g model
      else if r = ''->'' then (\<not> holds f model) \<or> holds g model
      else if r = ''+'' then holds f model \<noteq> holds g model
      else if r = ''<->'' then holds f model = holds g model
      else if r = ''-&'' then \<not> (holds f model \<and> holds g model)
      else if r = ''-|'' then \<not> (holds f model \<or> holds g model)
      else False)"

fun lex_rows :: "nat \<Rightarrow> bool list list" where
  "lex_rows 0 = [[]]"
| "lex_rows (Suc n) = map (\<lambda>row. False # row) (lex_rows n) @ map (\<lambda>row. True # row) (lex_rows n)"

definition bits_row :: "nat \<Rightarrow> nat \<Rightarrow> bool list" where
  "bits_row n i = map (\<lambda>j. bit i (n - 1 - j)) [0..<n]"

text \<open>
  Proof helpers, not in the sources: the conjunctive clause \<open>_synthesize_for_model\<close>
  returns for a nonempty model, and the formula \<open>synthesize\<close> builds from the clauses.
\<close>

definition clause_of :: "Model \<Rightarrow> Formula" where
  "clause_of model = foldl (\<lambda>res item. Binary ''&'' res (synthesize_atom item))
                      (synthesize_atom (hd model)) (tl model)"

definition dnf_of :: "string list \<Rightarrow> Formula list \<Rightarrow> Formula" where
  "dnf_of vs clauses =
     (if clauses = [] then Binary ''&'' (Variable (vs ! 0)) (Unary ''~'' (Variable (vs ! 0)))
      else foldl (\<lambda>res c. Binary ''|'' res c) (hd clauses) (tl clauses))"

section \<open>Inference rules (propositions/proofs.py, not among the sources)\<close>

text \<open>
  Modelled from the spec: the class \<open>InferenceRule\<close> of propositions/proofs.py is
  missing. The spec describes it as an ordered sequence of assumption formulas and one
  conclusion formula.
\<close>

record InferenceRule =
  assumptions :: "Formula list"
  conclusion :: Formula

text \<open>
  \<open>evaluate_inference\<close> and \<open>is_sound_inference\<close> (propositions/semantics.py): the body
  of the first ends after its assertion and the body of the second is empty, so a call
  that returns, returns Python's \<open>None\<close>: the result type is \<open>bool option\<close>, with \<open>None\<close>
  for \<open>None\<close>. \<open>truthy\<close> is the truth value Python's \<open>not\<close> and \<open>assert\<close> take of such a
  result.
\<close>

definition evaluate_inference :: "InferenceRule \<Rightarrow> Model \<Rightarrow> error + bool option" where
  "evaluate_inference r model = (if \<not> is_model model then Inl AssertionError else Inr None)"

definition is_sound_inference :: "InferenceRule \<Rightarrow> error + bool option" where
  "is_sound_inference r = Inr None"

definition truthy :: "bool option \<Rightarrow> bool" where
  "truthy x = (case x of None \<Rightarrow> False | Some b \<Rightarrow> b)"

text \<open>
  Modelled from the spec: \<open>InferenceRule.variables()\<close> is missing; \<open>rule_variables\<close> lists
  the variables of the assumptions and of the conclusion without repetition. The contract
  the docstrings and the spec give for the two functions is written out to compare the
  code with: the rule holds in the model when every assumption being true
  makes the conclusion true (so it holds when some assumption is false), and it is sound
  when it holds in every model over its variables.
\<close>

definition rule_variables :: "InferenceRule \<Rightarrow> string list" where
  "rule_variables r = remdups (concat (map formula_variables_list (assumptions r @ [conclusion r])))"

definition evaluate_inference_contract :: "InferenceRule \<Rightarrow> Model \<Rightarrow> bool" where
  "evaluate_inference_contract r model =
     (if list_all (\<lambda>a. holds a model) (assumptions r) then holds (conclusion r) model
      else True)"

definition is_sound_inference_contract :: "InferenceRule \<Rightarrow> bool" where
  "is_sound_inference_contract r =
     list_all (\<lambda>row. evaluate_inference_contract r (zip (rule_variables r) row))
              (lex_rows (length (rule_variables r)))"

text \<open>
  Modelled from the spec: \<open>specialization_map\<close> and \<open>is_specialization_of\<close> of
  \<open>InferenceRule\<close> are missing. The spec: rule S is a specialization of rule G if there
  exists a variable-to-formula substitution that, applied uniformly to every formula of
  G, yields exactly the formulas of S (the assumptions in the same order, and the
  conclusion), consistently: a variable that occurs several times in G is replaced by
  the same formula everywhere. \<open>substitute_variables\<close> applies a substitution;
  \<open>formula_specialization_map\<close> matches a general formula against a specialization,
  extending the map found so far or failing where a variable would get two formulas.
\<close>

type_synonym SpecializationMap = "(string \<times> Formula) list"

fun substitute_variables :: "(string \<Rightarrow> Formula) \<Rightarrow> Formula \<Rightarrow> Formula" where
  "substitute_variables s (Constant b) = Constant b"
| "substitute_variables s (Variable v) = s v"
| "substitute_variables s (Unary r f) = Unary r (substitute_variables s f)"
| "substitute_variables s (Binary r f g) = Binary r (substitute_variables s f) (substitute_variables s g)"

fun formula_specialization_map ::
  "Formula \<Rightarrow> Formula \<Rightarrow> SpecializationMap \<Rightarrow> SpecializationMap option" where
  "formula_specialization_map (Variable v) s acc =
     (case map_of acc v of
        None \<Rightarrow> Some ((v, s) # acc)
      | Some t \<Rightarrow> if t = s then Some acc else None)"
| "formula_specialization_map (Constant b) s acc = (if s = Constant b then Some acc else None)"
| "formula_specialization_map (Unary r g) (Unary r' s) acc =
     (if r = r' then formula_specialization_map g s acc else None)"
| "formula_specialization_map (Unary r g) _ acc = None"
| "formula_specialization_map (Binary r g1 g2) (Binary r' s1 s2) acc =
     (if r = r' then
        (case formula_specialization_map g1 s1 acc of
           None \<Rightarrow> None
         | Some acc' \<Rightarrow> formula_specialization_map g2 s2 acc')
      else None)"
| "formula_specialization_map (Binary r g1 g2) _ acc = None"

fun formulas_specialization_map ::
  "Formula list \<Rightarrow> Formula list \<Rightarrow> SpecializationMap \<Rightarrow> SpecializationMap option" where
  "formulas_specialization_map [] [] acc = Some acc"
| "formulas_specialization_map (g # gs) (s # ss) acc =
     (case formula_specialization_map g s acc of
        None \<Rightarrow> None
      | Some acc' \<Rightarrow> formulas_specialization_map gs ss acc')"
| "formulas_specialization_map _ _ acc = None"

definition specialization_map :: "InferenceRule \<Rightarrow> InferenceRule \<Rightarrow> SpecializationMap option" where
  "specialization_map general specialization =
     formulas_specialization_map (assumptions general @ [conclusion general])
       (assumptions specialization @ [conclusion specialization]) []"

definition is_specialization_of :: "InferenceRule \<Rightarrow> InferenceRule \<Rightarrow> bool" where
  "is_specialization_of specialization general =
     (specialization_map general specialization \<noteq> None)"

text \<open>
  The spec's words for the same relation, to compare the matching with.
\<close>

definition specializes :: "InferenceRule \<Rightarrow> InferenceRule \<Rightarrow> bool" where
  "specializes specialization general =
     (\<exists>s. map (substitute_variables s) (assumptions general) = assumptions specialization \<and>
          substitute_variables s (conclusion general) = conclusion specialization)"

section \<open>Proofs (propositions/proofs.py, not among the sources)\<close>

text \<open>
  Modelled from the spec: the classes \<open>Proof.Line\<close> and \<open>Proof\<close> are missing. A line is
  either an assumption line (a formula, no rule) or a derived line: a formula, a rule and
  the indices of the lines the rule is applied to. \<open>Proof.Line(f)\<close> is
  \<open>AssumptionLine f\<close> and \<open>Proof.Line(f, r, [i, j])\<close> is \<open>DerivedLine f r [i, j]\<close>. A
  proof is a statement (the assumptions and the conclusion, an \<open>InferenceRule\<close>), a set
  of permitted rules and a sequence of lines. Line indices are natural numbers: the
  sources compute every index they write from the length of a nonempty list of lines.
\<close>

datatype Line = AssumptionLine Formula | DerivedLine Formula InferenceRule "nat list"

fun line_formula :: "Line \<Rightarrow> Formula" where
  "line_formula (AssumptionLine f) = f"
| "line_formula (DerivedLine f r as) = f"

fun is_assumption :: "Line \<Rightarrow> bool" where
  "is_assumption (AssumptionLine f) = True"
| "is_assumption (DerivedLine f r as) = False"

record Proof =
  statement :: InferenceRule
  rules :: "InferenceRule set"
  lines :: "Line list"

text \<open>
  Modelled from the spec: \<open>rule_for_line\<close>, \<open>is_line_valid\<close> and \<open>is_valid\<close> of \<open>Proof\<close>
  are missing. The spec: an assumption line's formula is one of the declared
  assumptions; a derived line's rule is one of the permitted rules, the indices it
  refers to are strictly less than its own, and the rule whose assumptions are the
  formulas of the lines referred to, in order, and whose conclusion is the line's
  formula is a specialization of the line's rule; the sequence of lines is not empty and
  the formula of the last line is the conclusion of the statement.
\<close>

definition rule_for_line :: "Proof \<Rightarrow> nat \<Rightarrow> InferenceRule option" where
  "rule_for_line p line_number =
     (case lines p ! line_number of
        AssumptionLine f \<Rightarrow> None
      | DerivedLine f r as \<Rightarrow>
          Some \<lparr>assumptions = map (\<lambda>a. line_formula (lines p ! a)) as, conclusion = f\<rparr>)"

definition is_line_valid :: "Proof \<Rightarrow> nat \<Rightarrow> bool" where
  "is_line_valid p line_number =
     (case lines p ! line_number of
        AssumptionLine f \<Rightarrow> f \<in> set (assumptions (statement p))
      | DerivedLine f r as \<Rightarrow>
          r \<in> rules p \<and> list_all (\<lambda>a. a < line_number) as \<and>
          (case rule_for_line p line_number of
             None \<Rightarrow> False
           | Some specialization \<Rightarrow> is_specialization_of specialization r))"

definition is_valid :: "Proof \<Rightarrow> bool" where
  "is_valid p =
     (lines p \<noteq> [] \<and> line_formula (last (lines p)) = conclusion (statement p) \<and>
      list_all (is_line_valid p) [0..<length (lines p)])"

text \<open>
  The acyclicity invariant of the spec on its own: every index a derived line refers to is
  strictly less than the line's own index.
\<close>

fun line_references :: "Line \<Rightarrow> nat list" where
  "line_references (AssumptionLine f) = []"
| "line_references (DerivedLine f r as) = as"

definition references_backward :: "Line list \<Rightarrow> bool" where
  "references_backward ls =
     list_all (\<lambda>i. list_all (\<lambda>a. a < i) (line_references (ls ! i))) [0..<length ls]"

section \<open>The axiomatic system (propositions/axiomatic_systems.py, not among the sources)\<close>

text \<open>
  Modelled from the spec: the rules of propositions/axiomatic_systems.py are missing.
  The spec gives them, up to the names of the variables: Modus Ponens with the
  assumptions \<open>p\<close> and \<open>(p->q)\<close> and the conclusion \<open>q\<close>, and the assumptionless rules
  \<open>I0: (p->p)\<close>, \<open>I1: (p->(q->p))\<close>, \<open>D: ((p->(q->r))->((p->q)->(p->r)))\<close>,
  \<open>I2: (~p->(p->q))\<close> and \<open>N: ((~p->~q)->(q->p))\<close>.
\<close>

abbreviation Implies :: "Formula \<Rightarrow> Formula \<Rightarrow> Formula" where
  "Implies f g \<equiv> Binary ''->'' f g"

abbreviation Negation :: "Formula \<Rightarrow> Formula" where
  "Negation f \<equiv> Unary ''~'' f"

definition MP :: InferenceRule where
  "MP = \<lparr>assumptions = [Variable ''p'', Implies (Variable ''p'') (Variable ''q'')],
         conclusion = Variable ''q''\<rparr>"

definition I0 :: InferenceRule where
  "I0 = \<lparr>assumptions = [], conclusion = Implies (Variable ''p'') (Variable ''p'')\<rparr>"

definition I1 :: InferenceRule where
  "I1 = \<lparr>assumptions = [],
         conclusion = Implies (Variable ''p'') (Implies (Variable ''q'') (Variable ''p''))\<rparr>"

definition D :: InferenceRule where
  "D = \<lparr>assumptions = [],
        conclusion =
          Implies (Implies (Variable ''p'') (Implies (Variable ''q'') (Variable ''r'')))
                  (Implies (Implies (Variable ''p'') (Variable ''q''))
                           (Implies (Variable ''p'') (Variable ''r'')))\<rparr>"

definition I2 :: InferenceRule where
  "I2 = \<lparr>assumptions = [],
         conclusion = Implies (Negation (Variable ''p'')) (Implies (Variable ''p'') (Variable ''q''))\<rparr>"

definition N :: InferenceRule where
  "N = \<lparr>assumptions = [],
        conclusion =
          Implies (Implies (Negation (Variable ''p'')) (Negation (Variable ''q'')))
                  (Implies (Variable ''q'') (Variable ''p''))\<rparr>"

section \<open>Deduction (propositions/deduction.py)\<close>

text \<open>
  \<open>prove_corollary\<close>. The indices \<open>len(new_lines) - 2\<close> and \<open>len(new_lines) - 1\<close> are
  computed after the first \<open>append\<close>; the proof is valid there, so it has a line and the
  subtractions stay above zero.
\<close>

definition prove_corollary :: "Proof \<Rightarrow> Formula \<Rightarrow> InferenceRule \<Rightarrow> error + Proof" where
  "prove_corollary antecedent_proof consequent conditional =
     (if \<not> is_valid antecedent_proof then Inl AssertionError
      else if \<not> is_specialization_of
                 \<lparr>assumptions = [],
                  conclusion = Implies (conclusion (statement antecedent_proof)) consequent\<rparr>
                 conditional then Inl AssertionError
      else
        let antecedent = conclusion (statement antecedent_proof);
            new_lines = lines antecedent_proof;
            new_lines = new_lines @ [DerivedLine (Implies antecedent consequent) conditional []];
            new_lines = new_lines @
              [DerivedLine consequent MP [length new_lines - 2, length new_lines - 1]]
        in Inr \<lparr>statement = \<lparr>assumptions = assumptions (statement antecedent_proof),
                               conclusion = consequent\<rparr>,
                 rules = rules antecedent_proof \<union> {MP, conditional},
                 lines = new_lines\<rparr>)"

text \<open>
  \<open>combine_proofs\<close>. The loop over the lines of the second proof keeps an assumption line
  and rebuilds a derived line with every index shifted.
\<close>

fun shift_line :: "nat \<Rightarrow> Line \<Rightarrow> Line" where
  "shift_line shift (AssumptionLine f) = AssumptionLine f"
| "shift_line shift (DerivedLine f r as) = DerivedLine f r (map (\<lambda>a. a + shift) as)"

definition combine_proofs :: "Proof \<Rightarrow> Proof \<Rightarrow> Formula \<Rightarrow> InferenceRule \<Rightarrow> error + Proof" where
  "combine_proofs antecedent1_proof antecedent2_proof consequent double_conditional =
     (if \<not> is_valid antecedent1_proof then Inl AssertionError
      else if \<not> is_valid antecedent2_proof then Inl AssertionError
      else if \<not> assumptions (statement antecedent1_proof) = assumptions (statement antecedent2_proof)
        then Inl AssertionError
      else if \<not> rules antecedent1_proof = rules antecedent2_proof then Inl AssertionError
      else if \<not> is_specialization_of
                 \<lparr>assumptions = [],
                  conclusion = Implies (conclusion (statement antecedent1_proof))
                                 (Implies (conclusion (statement antecedent2_proof)) consequent)\<rparr>
                 double_conditional then Inl AssertionError
      else
        let a1 = conclusion (statement antecedent1_proof);
            a2 = conclusion (statement antecedent2_proof);
            new_lines = lines antecedent1_proof;
            shift = length new_lines;
            new_lines = new_lines @ map (shift_line shift) (lines antecedent2_proof);
            idx_a1 = shift - 1;
            idx_a2 = length new_lines - 1;
            axiom_formula = Implies a1 (Implies a2 consequent);
            new_lines = new_lines @ [DerivedLine axiom_formula double_conditional []];
            idx_axiom = length new_lines - 1;
            new_lines = new_lines @ [DerivedLine (Implies a2 consequent) MP [idx_a1, idx_axiom]];
            idx_intermediate = length new_lines - 1;
            new_lines = new_lines @ [DerivedLine consequent MP [idx_a2, idx_intermediate]]
        in Inr \<lparr>statement = \<lparr>assumptions = assumptions (statement antecedent1_proof),
                               conclusion = consequent\<rparr>,
                 rules = rules antecedent1_proof \<union> {MP, double_conditional},
                 lines = new_lines\<rparr>)"

text \<open>
  \<open>remove_assumption\<close>. The function has two loops over the lines. The first builds a
  list \<open>new_lines\<close> that the assignment \<open>new_lines = []\<close> before the second loop throws
  away. The second loop is \<open>remove_assumption_loop\<close>: \<open>remove_assumption_step\<close> is the
  body of one iteration up to the assignment to \<open>mapping[i]\<close>. In the last branch
  \<open>j, k = line.assumptions\<close> raises ValueError unless there are exactly two indices,
  \<open>proof.lines[j]\<close> raises IndexError out of range, and \<open>mapping[k]\<close> and \<open>mapping[j]\<close>
  raise KeyError for an index that is not the index of an earlier line.
\<close>

fun has_assumptionless_rule :: "Line \<Rightarrow> bool" where
  "has_assumptionless_rule (AssumptionLine f) = False"
| "has_assumptionless_rule (DerivedLine f r as) = (length (assumptions r) = 0)"

fun without_references :: "Line \<Rightarrow> Line" where
  "without_references (AssumptionLine f) = AssumptionLine f"
| "without_references (DerivedLine f r as) = DerivedLine f r []"

definition remove_assumption_first_step :: "Formula \<Rightarrow> Line list \<Rightarrow> Line \<Rightarrow> Line list" where
  "remove_assumption_first_step psi new_lines line =
     (let phi_i = line_formula line in
      if phi_i = psi \<and> is_assumption line then
        new_lines @ [DerivedLine (Implies psi psi) I0 []]
      else if is_assumption line \<or> has_assumptionless_rule line then
        let new_lines =
              (if is_assumption line then new_lines @ [AssumptionLine phi_i]
               else new_lines @ [without_references line]);
            new_lines = new_lines @ [DerivedLine (Implies phi_i (Implies psi phi_i)) I1 []];
            new_lines = new_lines @
              [DerivedLine (Implies psi phi_i) MP [length new_lines - 2, length new_lines - 1]]
        in new_lines
      else new_lines)"

definition remove_assumption_step ::
  "Formula \<Rightarrow> Line list \<Rightarrow> (nat \<rightharpoonup> nat) \<Rightarrow> Line list \<Rightarrow> Line \<Rightarrow> error + Line list" where
  "remove_assumption_step psi proof_lines mapping new_lines line =
     (let phi_i = line_formula line in
      if phi_i = psi \<and> is_assumption line then
        Inr (new_lines @ [DerivedLine (Implies psi psi) I0 []])
      else if is_assumption line \<or> has_assumptionless_rule line then
        let new_lines = new_lines @ [line];
            new_lines = new_lines @ [DerivedLine (Implies phi_i (Implies psi phi_i)) I1 []];
            new_lines = new_lines @
              [DerivedLine (Implies psi phi_i) MP [length new_lines - 2, length new_lines - 1]]
        in Inr new_lines
      else
        (case line_references line of
           [j, k] \<Rightarrow>
             if \<not> j < length proof_lines then Inl IndexError
             else
               let phi_j = line_formula (proof_lines ! j);
                   new_lines = new_lines @
                     [DerivedLine (Implies (Implies psi (Implies phi_j phi_i))
                                           (Implies (Implies psi phi_j) (Implies psi phi_i))) D []]
               in (case mapping k of
                     None \<Rightarrow> Inl KeyError
                   | Some mapping_k \<Rightarrow>
                       let new_lines = new_lines @
                             [DerivedLine (Implies (Implies psi phi_j) (Implies psi phi_i)) MP
                                [mapping_k, length new_lines - 1]]
                       in (case mapping j of
                             None \<Rightarrow> Inl KeyError
                           | Some mapping_j \<Rightarrow>
                               Inr (new_lines @
                                 [DerivedLine (Implies psi phi_i) MP
                                    [mapping_j, length new_lines - 1]])))
         | _ \<Rightarrow> Inl ValueError))"

fun remove_assumption_loop ::
  "Formula \<Rightarrow> Line list \<Rightarrow> (nat \<times> Line) list \<Rightarrow> (nat \<rightharpoonup> nat) \<Rightarrow> Line list \<Rightarrow> error + Line list" where
  "remove_assumption_loop psi proof_lines [] mapping new_lines = Inr new_lines"
| "remove_assumption_loop psi proof_lines ((i, line) # rest) mapping new_lines =
     (case remove_assumption_step psi proof_lines mapping new_lines line of
        Inl e \<Rightarrow> Inl e
      | Inr new_lines' \<Rightarrow>
          remove_assumption_loop psi proof_lines rest
            (mapping(i \<mapsto> length new_lines' - 1)) new_lines')"

definition remove_assumption :: "Proof \<Rightarrow> error + Proof" where
  "remove_assumption p =
     (if \<not> is_valid p then Inl AssertionError
      else if \<not> length (assumptions (statement p)) > 0 then Inl AssertionError
      else if \<not> (\<forall>r\<in>rules p. r = MP \<or> length (assumptions r) = 0) then Inl AssertionError
      else
        let gamma = butlast (assumptions (statement p));
            psi = last (assumptions (statement p));
            discarded = foldl (remove_assumption_first_step psi) [] (lines p)
        in (case remove_assumption_loop psi (lines p) (enumerate 0 (lines p)) Map.empty [] of
              Inl e \<Rightarrow> Inl e
            | Inr new_lines \<Rightarrow>
                Inr \<lparr>statement = \<lparr>assumptions = gamma,
                                     conclusion = Implies psi (conclusion (statement p))\<rparr>,
                      rules = rules p \<union> {MP, I0, I1, D},
                      lines = new_lines\<rparr>))"

text \<open>
  \<open>prove_from_opposites\<close> and \<open>prove_by_way_of_contradiction\<close>. \<open>Formula.parse('~(p->p)')\<close>
  is the tree \<open>Negation (Implies (Variable ''p'') (Variable ''p''))\<close>. Of the trees the
  constructor of \<open>Formula\<close> accepts only a unary node has the root \<open>'~'\<close>, and its
  \<open>first\<close> is its operand.
\<close>

definition prove_from_opposites :: "Proof \<Rightarrow> Proof \<Rightarrow> Formula \<Rightarrow> error + Proof" where
  "prove_from_opposites proof_of_affirmation proof_of_negation conclusion' =
     (if \<not> is_valid proof_of_affirmation then Inl AssertionError
      else if \<not> is_valid proof_of_negation then Inl AssertionError
      else if \<not> assumptions (statement proof_of_affirmation) =
                 assumptions (statement proof_of_negation) then Inl AssertionError
      else if \<not> Negation (conclusion (statement proof_of_affirmation)) =
                 conclusion (statement proof_of_negation) then Inl AssertionError
      else if \<not> rules proof_of_affirmation = rules proof_of_negation then Inl AssertionError
      else combine_proofs proof_of_negation proof_of_affirmation conclusion' I2)"

definition prove_by_way_of_contradiction :: "Proof \<Rightarrow> error + Proof" where
  "prove_by_way_of_contradiction p =
     (if \<not> is_valid p then Inl AssertionError
      else if \<not> conclusion (statement p) = Negation (Implies (Variable ''p'') (Variable ''p''))
        then Inl AssertionError
      else if \<not> length (assumptions (statement p)) > 0 then Inl AssertionError
      else
        (case last (assumptions (statement p)) of
           Unary root phi \<Rightarrow>
             if \<not> root = ''~'' then Inl AssertionError
             else if \<not> (\<forall>r\<in>rules p. r = MP \<or> length (assumptions r) = 0) then Inl AssertionError
             else
               (case remove_assumption p of
                  Inl e \<Rightarrow> Inl e
                | Inr proof_with_removed \<Rightarrow>
                    let new_lines = lines proof_with_removed;
                        idx_removed_phi = length new_lines - 1;
                        f_p_p = Implies (Variable ''p'') (Variable ''p'');
                        n_specialization =
                          Implies (Implies (Negation phi) (Negation f_p_p)) (Implies f_p_p phi);
                        new_lines = new_lines @ [DerivedLine n_specialization N []];
                        idx_n_axiom = length new_lines - 1;
                        new_lines = new_lines @
                          [DerivedLine (Implies f_p_p phi) MP [idx_removed_phi, idx_n_axiom]];
                        idx_cond_phi = length new_lines - 1;
                        new_lines = new_lines @ [DerivedLine f_p_p I0 []];
                        idx_p_p = length new_lines - 1;
                        new_lines = new_lines @ [DerivedLine phi MP [idx_p_p, idx_cond_phi]]
                    in Inr \<lparr>statement = \<lparr>assumptions = assumptions (statement proof_with_removed),
                                           conclusion = phi\<rparr>,
                             rules = rules proof_with_removed \<union> {MP, I0, I1, D, N},
                             lines = new_lines\<rparr>)
         | _ \<Rightarrow> Inl AssertionError))"

section \<open>Soundness (propositions/soundness.py)\<close>

text \<open>
  \<open>rule_nonsoundness_from_specialization_nonsoundness\<close>. The second assertion negates
  the result of \<open>evaluate_inference\<close>, which is \<open>None\<close> whenever that call returns, so the
  assertion passes. \<open>general.variables()\<close> is \<open>rule_variables\<close> (modelled from the spec:
  the variables of the assumptions and of the conclusion; Python iterates over the set
  in an order that is not specified, the model in the order of first occurrence). The
  loop looks \<open>spec_map[var]\<close> up (KeyError when the key is missing), evaluates the
  formula and assigns \<open>new_model[var]\<close>.
\<close>

definition rule_nonsoundness_from_specialization_nonsoundness ::
  "InferenceRule \<Rightarrow> InferenceRule \<Rightarrow> Model \<Rightarrow> error + Model" where
  "rule_nonsoundness_from_specialization_nonsoundness general specialization model =
     (if \<not> is_specialization_of specialization general then Inl AssertionError
      else
        case evaluate_inference specialization model of
          Inl e \<Rightarrow> Inl e
        | Inr holds_in_model \<Rightarrow>
            if \<not> (\<not> truthy holds_in_model) then Inl AssertionError
            else
              (case specialization_map general specialization of
                 None \<Rightarrow> Inl AttributeError
               | Some spec_map \<Rightarrow>
                   (case collect
                           (map (\<lambda>var.
                                   case map_of spec_map var of
                                     None \<Rightarrow> Inl KeyError
                                   | Some formula_to_eval \<Rightarrow>
                                       (case evaluate formula_to_eval model of
                                          Inl e \<Rightarrow> Inl e
                                        | Inr b \<Rightarrow> Inr (var, b)))
                                (rule_variables general)) of
                      Inl e \<Rightarrow> Inl e
                    | Inr items \<Rightarrow>
                        Inr (fold (\<lambda>item new_model. AList.update (fst item) (snd item) new_model)
                                  items []))))"

text \<open>
  \<open>nonsound_rule_of_nonsound_proof\<close>. \<open>proof.lines.index(line)\<close> is the index of the first
  line equal to \<open>line\<close> (ValueError when there is none). The loop returns from inside at
  the first derived line whose formula is false; when the loop ends the function ends
  without a \<open>return\<close>, so it returns \<open>None\<close>: the result type is an option, with \<open>None\<close>
  for Python's \<open>None\<close>. \<open>rule_for_line\<close> gives \<open>None\<close> for an assumption line, on which
  the call of \<open>is_specialization_of\<close> would raise AttributeError.
\<close>

fun index_of :: "'a list \<Rightarrow> 'a \<Rightarrow> nat option" where
  "index_of [] x = None"
| "index_of (y # ys) x = (if y = x then Some 0 else map_option Suc (index_of ys x))"

fun nonsound_rule_of_nonsound_proof_loop ::
  "Proof \<Rightarrow> Model \<Rightarrow> Line list \<Rightarrow> error + (InferenceRule \<times> Model) option" where
  "nonsound_rule_of_nonsound_proof_loop p model [] = Inr None"
| "nonsound_rule_of_nonsound_proof_loop p model (line # rest) =
     (case evaluate (line_formula line) model of
        Inl e \<Rightarrow> Inl e
      | Inr is_true \<Rightarrow>
          (case line of
             AssumptionLine f \<Rightarrow>
               if \<not> is_true then Inl AssertionError
               else nonsound_rule_of_nonsound_proof_loop p model rest
           | DerivedLine f general_rule as \<Rightarrow>
               if \<not> is_true then
                 (case index_of (lines p) line of
                    None \<Rightarrow> Inl ValueError
                  | Some line_number \<Rightarrow>
                      (case rule_for_line p line_number of
                         None \<Rightarrow> Inl AttributeError
                       | Some specialization \<Rightarrow>
                           (case rule_nonsoundness_from_specialization_nonsoundness
                                   general_rule specialization model of
                              Inl e \<Rightarrow> Inl e
                            | Inr bad_model \<Rightarrow> Inr (Some (general_rule, bad_model)))))
               else nonsound_rule_of_nonsound_proof_loop p model rest))"

definition nonsound_rule_of_nonsound_proof ::
  "Proof \<Rightarrow> Model \<Rightarrow> error + (InferenceRule \<times> Model) option" where
  "nonsound_rule_of_nonsound_proof p model =
     (if \<not> is_valid p then Inl AssertionError
      else
        case evaluate_inference (statement p) model of
          Inl e \<Rightarrow> Inl e
        | Inr holds_in_model \<Rightarrow>
            if \<not> (\<not> truthy holds_in_model) then Inl AssertionError
            else nonsound_rule_of_nonsound_proof_loop p model (lines p))"

text \<open>
  A proof of \<open>q\<close> from no assumptions by two rules that are not sound: the line \<open>r\<close> by
  the rule with no assumptions and the conclusion \<open>p\<close>, and the line \<open>q\<close> from it by the
  rule with the assumption \<open>p\<close> and the conclusion \<open>q\<close>.
\<close>

definition unsound_axiom :: InferenceRule where
  "unsound_axiom = \<lparr>assumptions = [], conclusion = Variable ''p''\<rparr>"

definition unsound_rule :: InferenceRule where
  "unsound_rule = \<lparr>assumptions = [Variable ''p''], conclusion = Variable ''q''\<rparr>"

definition unsound_proof :: Proof where
  "unsound_proof =
     \<lparr>statement = \<lparr>assumptions = [], conclusion = Variable ''q''\<rparr>,
      rules = {unsound_axiom, unsound_rule},
      lines = [DerivedLine (Variable ''r'') unsound_axiom [],
               DerivedLine (Variable ''q'') unsound_rule [0]]\<rparr>"

section \<open>Proof helpers\<close>

text \<open>
  Not in the sources: a total substitution that agrees with a specialization map, the
  substitution a map stands for, and the validity of one line and of all lines in terms
  of the parts of a proof, with the spec's words for specialization.
\<close>

definition agrees :: "SpecializationMap \<Rightarrow> (string \<Rightarrow> Formula) \<Rightarrow> bool" where
  "agrees acc s = (\<forall>v t. map_of acc v = Some t \<longrightarrow> s v = t)"

definition substitution_of :: "SpecializationMap \<Rightarrow> string \<Rightarrow> Formula" where
  "substitution_of acc v = (case map_of acc v of None \<Rightarrow> Variable v | Some t \<Rightarrow> t)"

definition line_ok :: "Formula list \<Rightarrow> InferenceRule set \<Rightarrow> Line list \<Rightarrow> nat \<Rightarrow> bool" where
  "line_ok asms rs ls i =
     (case ls ! i of
        AssumptionLine f \<Rightarrow> f \<in> set asms
      | DerivedLine f r as \<Rightarrow>
          r \<in> rs \<and> (\<forall>a\<in>set as. a < i) \<and>
          specializes \<lparr>assumptions = map (\<lambda>a. line_formula (ls ! a)) as, conclusion = f\<rparr> r)"

definition lines_ok :: "Formula list \<Rightarrow> InferenceRule set \<Rightarrow> Line list \<Rightarrow> bool" where
  "lines_ok asms rs ls = (\<forall>i<length ls. line_ok asms rs ls i)"

text \<open>
  Not in the sources: the invariant of the second loop of \<open>remove_assumption\<close> after
  \<open>i\<close> lines: the new lines are valid, and \<open>mapping\<close> sends the index of every line
  done to the index of a new line that proves \<open>(psi -> formula of that line)\<close>.
\<close>

definition removal_invariant ::
  "Formula \<Rightarrow> Formula list \<Rightarrow> InferenceRule set \<Rightarrow> Line list \<Rightarrow> nat \<Rightarrow> (nat \<rightharpoonup> nat) \<Rightarrow> Line list \<Rightarrow> bool" where
  "removal_invariant psi gamma rs all i mapping new =
     (lines_ok gamma rs new \<and>
      (\<forall>i'<i. \<exists>t. mapping i' = Some t \<and> t < length new \<and>
                   line_formula (new ! t) = Implies psi (line_formula (all ! i'))))"

text \<open>
  Not in the sources: every formula a specialization map assigns has its variables in
  the given set.
\<close>

definition images_within :: "SpecializationMap \<Rightarrow> string set \<Rightarrow> bool" where
  "images_within acc V = (\<forall>v u x. (v, u) \<in> set acc \<and> x \<in> set (formula_variables_list u) \<longrightarrow> x \<in> V)"

section \<open>Example proofs\<close>

text \<open>
  Concrete proofs to run the functions on: a proof of \<open>~(p->p)\<close> from the single
  assumption \<open>~q\<close>, by the assumption, one line of an assumptionless rule with the
  conclusion \<open>(~q->~(p->p))\<close> and Modus Ponens; and the one-line proof of \<open>~q\<close> from \<open>~q\<close>
  with the same rules.
\<close>

definition example_rule :: InferenceRule where
  "example_rule =
     \<lparr>assumptions = [],
      conclusion = Implies (Negation (Variable ''q''))
                     (Negation (Implies (Variable ''p'') (Variable ''p'')))\<rparr>"

definition example_proof :: Proof where
  "example_proof =
     \<lparr>statement = \<lparr>assumptions = [Negation (Variable ''q'')],
                    conclusion = Negation (Implies (Variable ''p'') (Variable ''p''))\<rparr>,
      rules = {MP, example_rule},
      lines = [AssumptionLine (Negation (Variable ''q'')),
               DerivedLine (Implies (Negation (Variable ''q''))
                              (Negation (Implies (Variable ''p'') (Variable ''p''))))
                 example_rule [],
               DerivedLine (Negation (Implies (Variable ''p'') (Variable ''p''))) MP [0, 1]]\<rparr>"

definition example_assumption_proof :: Proof where
  "example_assumption_proof =
     \<lparr>statement = \<lparr>assumptions = [Negation (Variable ''q'')],
                    conclusion = Negation (Variable ''q'')\<rparr>,
      rules = {MP, example_rule},
      lines = [AssumptionLine (Negation (Variable ''q''))]\<rparr>"

definition example_double_conditional :: InferenceRule where
  "example_double_conditional =
     \<lparr>assumptions = [],
      conclusion = Implies (Variable ''x'') (Implies (Variable ''y'') (Variable ''z''))\<rparr>"

text \<open>
  The one-line proofs of \<open>q\<close> and of \<open>~q\<close> from the assumptions \<open>q\<close> and \<open>~q\<close>.
\<close>

definition example_affirmation_proof :: Proof where
  "example_affirmation_proof =
     \<lparr>statement = \<lparr>assumptions = [Variable ''q'', Negation (Variable ''q'')],
                    conclusion = Variable ''q''\<rparr>,
      rules = {MP},
      lines = [AssumptionLine (Variable ''q'')]\<rparr>"

definition example_negation_proof :: Proof where
  "example_negation_proof =
     \<lparr>statement = \<lparr>assumptions = [Variable ''q'', Negation (Variable ''q'')],
                    conclusion = Negation (Variable ''q'')\<rparr>,
      rules = {MP},
      lines = [AssumptionLine (Negation (Variable ''q''))]\<rparr>"

section \<open>Properties of the semantics\<close>

lemma set_formula_variables [simp]: "set (formula_variables f) = set (formula_variables_list f)"
  by (simp add: formula_variables_def)

lemma evaluate_eq:
  "evaluate f model =
     (if is_model model \<and> set (formula_variables f) \<subseteq> set (map fst model)
      then Inr (holds f model) else Inl AssertionError)"
proof (induction f)
  case (Variable v)
  show ?case
  proof (cases "v \<in> fst ` set model")
    case True
    then obtain b where "map_of model v = Some b"
      by (metis domD dom_map_of_conv_image_fst)
    with True show ?thesis by (cases b) auto
  next
    case False
    then show ?thesis by auto
  qed
qed auto

subsection \<open>The models of \<open>all_models\<close>\<close>

lemma update_fresh: "k \<notin> fst ` set al \<Longrightarrow> AList.update k v al = al @ [(k, v)]"
  by (induction al) auto

lemma fold_update_fresh:
  "distinct (map f js) \<Longrightarrow> f ` set js \<inter> fst ` set acc = {} \<Longrightarrow>
   fold (\<lambda>j model. AList.update (f j) (b j) model) js acc = acc @ map (\<lambda>j. (f j, b j)) js"
proof (induction js arbitrary: acc)
  case Nil
  then show ?case by simp
next
  case (Cons j js)
  have fresh: "f j \<notin> fst ` set acc" using Cons.prems(2) by auto
  have "f ` set js \<inter> fst ` set (acc @ [(f j, b j)]) = {}"
    using Cons.prems by auto
  with Cons.IH [of "acc @ [(f j, b j)]"] Cons.prems(1) fresh
  show ?case by (simp add: update_fresh)
qed

lemma and_one_neq_zero: "((drop_bit k (i::nat) AND 1) \<noteq> 0) = bit i k"
  by (simp add: bit_iff_and_drop_bit_eq_1 and_one_eq)

lemma model_number_distinct:
  assumes "distinct vs"
  shows "model_number vs i = zip vs (bits_row (length vs) i)"
proof -
  have d: "distinct (map (\<lambda>j. vs ! j) [0..<length vs])"
    using assms by (simp add: map_nth)
  have "model_number vs i = map (\<lambda>j. (vs ! j, bit i (length vs - 1 - j))) [0..<length vs]"
    unfolding model_number_def and_one_neq_zero
    using fold_update_fresh [OF d, of "[]" "\<lambda>j. bit i (length vs - 1 - j)"] by simp
  also have "\<dots> = zip vs (bits_row (length vs) i)"
    by (rule nth_equalityI) (simp_all add: bits_row_def)
  finally show ?thesis .
qed

lemma length_lex_rows [simp]: "length (lex_rows n) = 2 ^ n"
  by (induction n) simp_all

lemma length_lex_row: "row \<in> set (lex_rows n) \<Longrightarrow> length row = n"
  by (induction n arbitrary: row) auto

lemma distinct_lex_rows: "distinct (lex_rows n)"
  by (induction n) (auto simp: distinct_map inj_on_def)

lemma bits_row_Suc:
  "bits_row (Suc n) i = bit i n # bits_row n (i mod 2 ^ n)"
proof -
  have "map (\<lambda>j. bit i (Suc n - 1 - j)) [0..<Suc n]
        = bit i n # map (\<lambda>j. bit i (n - 1 - j)) [0..<n]"
    by (simp add: upt_conv_Cons map_Suc_upt [symmetric] del: upt_Suc)
  moreover have "map (\<lambda>j. bit i (n - 1 - j)) [0..<n] = map (\<lambda>j. bit (i mod 2 ^ n) (n - 1 - j)) [0..<n]"
    by (auto simp add: bit_take_bit_iff simp flip: take_bit_eq_mod)
  ultimately show ?thesis by (simp add: bits_row_def)
qed

lemma lex_rows_nth: "i < 2 ^ n \<Longrightarrow> lex_rows n ! i = bits_row n i"
proof (induction n arbitrary: i)
  case 0
  then show ?case by (simp add: bits_row_def)
next
  case (Suc n)
  show ?case
  proof (cases "i < 2 ^ n")
    case True
    then have "\<not> bit i n" by (simp add: bit_iff_odd)
    with True Suc.IH [of i] show ?thesis
      by (simp add: bits_row_Suc nth_append)
  next
    case False
    then have ge: "2 ^ n \<le> i" by simp
    have lt: "i - 2 ^ n < 2 ^ n" using Suc.prems ge by simp
    have "i div 2 ^ n = 1" using Suc.prems ge
      by (metis False One_nat_def div_eq_0_iff less_2_cases less_mult_imp_div_less mult.commute power_Suc power_not_zero zero_neq_numeral)
    then have b: "bit i n" by (simp add: bit_iff_odd)
    have m: "i mod 2 ^ n = i - 2 ^ n"
      using ge lt by (metis le_mod_geq mod_less)
    from False lt b m Suc.IH [of "i - 2 ^ n"] show ?thesis
      by (simp add: bits_row_Suc nth_append)
  qed
qed

lemma map_model_number:
  assumes "distinct vs"
  shows "map (model_number vs) [0..<2 ^ length vs] = map (zip vs) (lex_rows (length vs))"
  by (rule nth_equalityI) (simp_all add: model_number_distinct [OF assms] lex_rows_nth)

lemma all_models_distinct:
  "distinct vs \<Longrightarrow> list_all is_variable vs \<Longrightarrow>
   all_models vs = Inr (map (zip vs) (lex_rows (length vs)))"
  by (simp add: all_models_def map_model_number)

lemma is_model_zip: "list_all is_variable vs \<Longrightarrow> is_model (zip vs row)"
  unfolding is_model_def list_all_iff by (auto dest: set_zip_leftD)

lemma keys_zip_lex_row:
  "row \<in> set (lex_rows (length vs)) \<Longrightarrow> fst ` set (zip vs row) = set vs"
  using length_lex_row [of row "length vs"] by (metis map_fst_zip set_map)

text \<open>
  C9. For a list of \<open>n\<close> distinct variable names \<open>all_models\<close> yields \<open>2 ^ n\<close> models;
  the keys of each are exactly the given names (in their order); the rows of their
  values are the rows of truth values in lexicographic order, \<open>False\<close> before \<open>True\<close>,
  the first variable the most significant: model number \<open>i\<close> gives variable number \<open>j\<close>
  bit \<open>n - 1 - j\<close> of \<open>i\<close>. On \<open>['p', 'q']\<close> the models are FF, FT, TF, TT in that order.
\<close>

theorem all_models_lexicographic:
  "distinct vs \<Longrightarrow> list_all is_variable vs \<Longrightarrow>
   (\<exists>ms. all_models vs = Inr ms \<and> length ms = 2 ^ length vs \<and>
      (\<forall>m\<in>set ms. map fst m = vs \<and> dom (map_of m) = set vs) \<and>
      map (map snd) ms = lex_rows (length vs) \<and>
      (\<forall>i<2 ^ length vs. \<forall>j<length vs.
         map_of (ms ! i) (vs ! j) = Some (bit i (length vs - 1 - j)))) \<and>
   all_models [''p'', ''q''] =
     Inr [[(''p'', False), (''q'', False)], [(''p'', False), (''q'', True)],
          [(''p'', True), (''q'', False)], [(''p'', True), (''q'', True)]]"
proof -
  assume d: "distinct vs" and v: "list_all is_variable vs"
  let ?n = "length vs"
  let ?ms = "map (zip vs) (lex_rows ?n)"
  have a: "all_models vs = Inr ?ms" by (rule all_models_distinct [OF d v])
  have b: "length ?ms = 2 ^ ?n" by simp
  have c: "\<forall>m\<in>set ?ms. map fst m = vs \<and> dom (map_of m) = set vs"
  proof
    fix m assume "m \<in> set ?ms"
    then obtain row where r: "row \<in> set (lex_rows ?n)" and m: "m = zip vs row" by auto
    have l: "length row = ?n" by (rule length_lex_row [OF r])
    show "map fst m = vs \<and> dom (map_of m) = set vs"
      using l by (simp add: m dom_map_of_conv_image_fst keys_zip_lex_row [OF r])
  qed
  have e: "map (map snd) ?ms = lex_rows ?n"
  proof (rule nth_equalityI)
    fix i assume "i < length (map (map snd) ?ms)"
    then have i: "i < 2 ^ ?n" by simp
    then have "length (lex_rows ?n ! i) = ?n" by (simp add: length_lex_row)
    then show "map (map snd) ?ms ! i = lex_rows ?n ! i" using i by simp
  qed simp
  have f: "\<forall>i<2 ^ ?n. \<forall>j<?n. map_of (?ms ! i) (vs ! j) = Some (bit i (?n - 1 - j))"
    using d by (simp add: lex_rows_nth bits_row_def map_of_zip_nth)
  have g: "all_models [''p'', ''q''] =
     Inr [[(''p'', False), (''q'', False)], [(''p'', False), (''q'', True)],
          [(''p'', True), (''q'', False)], [(''p'', True), (''q'', True)]]"
    by code_simp
  from a b c e f g show ?thesis by blast
qed

theorem all_models_lexicographic_witness:
  "distinct [''x'', ''y1'', ''z''] \<and> list_all is_variable [''x'', ''y1'', ''z''] \<and>
   (\<exists>ms. all_models [''x'', ''y1'', ''z''] = Inr ms \<and> length ms = 8 \<and>
      map (map snd) ms = lex_rows 3 \<and> map_of (ms ! 5) ''y1'' = Some False)"
proof -
  have d: "distinct [''x'', ''y1'', ''z'']" by simp
  have v: "list_all is_variable [''x'', ''y1'', ''z'']" by code_simp
  have n: "length [''x'', ''y1'', ''z''] = 3" by simp
  from all_models_lexicographic [OF d v, unfolded n]
  obtain ms where a: "all_models [''x'', ''y1'', ''z''] = Inr ms" and l: "length ms = 2 ^ 3"
    and r: "map (map snd) ms = lex_rows 3"
    and b: "\<forall>i<2 ^ 3. \<forall>j<3. map_of (ms ! i) ([''x'', ''y1'', ''z''] ! j) = Some (bit i (3 - 1 - j))"
    by blast
  have "map_of (ms ! 5) ([''x'', ''y1'', ''z''] ! 1) = Some (bit (5::nat) (3 - 1 - 1))"
    by (rule b [rule_format]) simp_all
  then have y: "map_of (ms ! 5) ''y1'' = Some False" by (simp add: bit_iff_odd)
  have l8: "length ms = 8" using l by simp
  from a l8 r y have "\<exists>ms. all_models [''x'', ''y1'', ''z''] = Inr ms \<and> length ms = 8 \<and>
      map (map snd) ms = lex_rows 3 \<and> map_of (ms ! 5) ''y1'' = Some False" by blast
  with d v show ?thesis by blast
qed

subsection \<open>Satisfiability and contradiction\<close>

lemma py_any_py_all: "py_any xs = py_not (py_all (map py_not xs))"
  by (induction xs) (auto simp: py_not_def split: sum.splits)

lemma py_all_Inr: "\<forall>x\<in>set xs. \<exists>b. x = Inr b \<Longrightarrow> \<exists>b. py_all xs = Inr b"
  by (induction xs) auto

lemma collect_cong_Inr:
  "(\<And>x. x \<in> set xs \<Longrightarrow> g x = Inr (f x)) \<Longrightarrow> collect (map g xs) = Inr (map f xs)"
  by (induction xs) auto

lemma is_satisfiable_py_not: "is_satisfiable F = py_not (is_contradiction F)"
  by (simp add: is_satisfiable_def is_contradiction_def py_any_py_all py_not_def comp_def
      split: sum.splits)

lemma is_formula_variables: "is_formula F \<Longrightarrow> list_all is_variable (formula_variables_list F)"
  by (induction F) auto

lemma is_contradiction_total:
  assumes "is_formula F"
  shows "\<exists>b. is_contradiction F = Inr b"
proof -
  let ?vs = "formula_variables F"
  have d: "distinct ?vs" by (simp add: formula_variables_def)
  have v: "list_all is_variable ?vs"
    using is_formula_variables [OF assms] by (simp add: formula_variables_def list_all_iff)
  have "\<forall>x\<in>set (map (\<lambda>m. py_not (evaluate F m)) (map (zip ?vs) (lex_rows (length ?vs)))).
          \<exists>b. x = Inr b"
    using v by (auto simp: evaluate_eq py_not_def is_model_zip keys_zip_lex_row)
  from py_all_Inr [OF this] show ?thesis
    by (simp add: is_contradiction_def all_models_distinct [OF d v])
qed

text \<open>
  C10. For every formula \<open>F\<close> (a tree the constructor of \<open>Formula\<close> accepts),
  \<open>is_contradiction(F)\<close> returns a truth value and \<open>is_satisfiable(F)\<close> returns its
  negation.
\<close>

theorem is_satisfiable_not_is_contradiction:
  "is_formula F \<Longrightarrow> \<exists>b. is_contradiction F = Inr b \<and> is_satisfiable F = Inr (\<not> b)"
proof -
  assume "is_formula F"
  then obtain b where "is_contradiction F = Inr b" using is_contradiction_total by blast
  then show ?thesis by (simp add: is_satisfiable_py_not py_not_def)
qed

theorem is_satisfiable_not_is_contradiction_witness:
  "is_formula (Binary ''&'' (Variable ''p'') (Unary ''~'' (Variable ''q''))) \<and>
   is_contradiction (Binary ''&'' (Variable ''p'') (Unary ''~'' (Variable ''q''))) = Inr False \<and>
   is_satisfiable (Binary ''&'' (Variable ''p'') (Unary ''~'' (Variable ''q''))) = Inr True"
proof -
  let ?F = "Binary ''&'' (Variable ''p'') (Unary ''~'' (Variable ''q''))"
  have wf: "is_formula ?F" by code_simp
  have c: "is_contradiction ?F = Inr False" by code_simp
  from is_satisfiable_not_is_contradiction [OF wf] c
  have "is_satisfiable ?F = Inr True" by auto
  with wf c show ?thesis by simp
qed

subsection \<open>Synthesis of a formula from a truth table\<close>

lemma vars_synthesize_atom [simp]:
  "set (formula_variables_list (synthesize_atom item)) = {fst item}"
  by (cases item) (simp add: synthesize_atom_def)

lemma is_formula_synthesize_atom [simp]:
  "is_formula (synthesize_atom item) = is_variable (fst item)"
  by (cases item) (simp add: synthesize_atom_def)

lemma ball_zip:
  "length ys = length xs \<Longrightarrow>
   (\<forall>p\<in>set (zip xs ys). P p) = (\<forall>j<length xs. P (xs ! j, ys ! j))"
  by (simp add: all_set_conv_all_nth)

lemma bex_zip:
  "length ys = length xs \<Longrightarrow>
   (\<exists>p\<in>set (zip xs ys). P p) = (\<exists>j<length xs. P (xs ! j, ys ! j))"
  using ball_zip [of ys xs "\<lambda>p. \<not> P p"] by blast

lemma holds_foldl_and:
  "holds (foldl (\<lambda>res item. Binary ''&'' res (synthesize_atom item)) f0 items) m
   = (holds f0 m \<and> (\<forall>item\<in>set items. holds (synthesize_atom item) m))"
  by (induction items arbitrary: f0) auto

lemma vars_foldl_and:
  "set (formula_variables_list (foldl (\<lambda>res item. Binary ''&'' res (synthesize_atom item)) f0 items))
   = set (formula_variables_list f0) \<union> fst ` set items"
  by (induction items arbitrary: f0) auto

lemma is_formula_foldl_and:
  "is_formula (foldl (\<lambda>res item. Binary ''&'' res (synthesize_atom item)) f0 items)
   = (is_formula f0 \<and> (\<forall>item\<in>set items. is_variable (fst item)))"
  by (induction items arbitrary: f0) auto

lemma holds_clause_of:
  "model \<noteq> [] \<Longrightarrow> holds (clause_of model) m = (\<forall>item\<in>set model. holds (synthesize_atom item) m)"
  by (cases model) (simp_all add: clause_of_def holds_foldl_and)

lemma vars_clause_of:
  "model \<noteq> [] \<Longrightarrow> set (formula_variables_list (clause_of model)) = fst ` set model"
  by (cases model) (auto simp add: clause_of_def vars_foldl_and)

lemma is_formula_clause_of:
  "model \<noteq> [] \<Longrightarrow> is_formula (clause_of model) = is_model model"
  by (cases model) (auto simp: clause_of_def is_formula_foldl_and is_model_def list_all_iff)

lemma holds_foldl_or:
  "holds (foldl (\<lambda>res c. Binary ''|'' res c) f0 cs) m = (holds f0 m \<or> (\<exists>c\<in>set cs. holds c m))"
  by (induction cs arbitrary: f0) auto

lemma vars_foldl_or:
  "set (formula_variables_list (foldl (\<lambda>res c. Binary ''|'' res c) f0 cs))
   = set (formula_variables_list f0) \<union> (\<Union>c\<in>set cs. set (formula_variables_list c))"
  by (induction cs arbitrary: f0) auto

lemma is_formula_foldl_or:
  "is_formula (foldl (\<lambda>res c. Binary ''|'' res c) f0 cs)
   = (is_formula f0 \<and> (\<forall>c\<in>set cs. is_formula c))"
  by (induction cs arbitrary: f0) auto

lemma holds_dnf_of: "holds (dnf_of vs clauses) m = (\<exists>c\<in>set clauses. holds c m)"
  by (cases clauses) (auto simp: dnf_of_def holds_foldl_or)

lemma vars_dnf_of:
  "vs \<noteq> [] \<Longrightarrow> \<forall>c\<in>set clauses. set (formula_variables_list c) \<subseteq> set vs \<Longrightarrow>
   set (formula_variables_list (dnf_of vs clauses)) \<subseteq> set vs"
  by (cases clauses) (auto simp: dnf_of_def vars_foldl_or)

lemma is_formula_dnf_of:
  "vs \<noteq> [] \<Longrightarrow> list_all is_variable vs \<Longrightarrow> \<forall>c\<in>set clauses. is_formula c \<Longrightarrow>
   is_formula (dnf_of vs clauses)"
  by (cases clauses; cases vs) (auto simp: dnf_of_def is_formula_foldl_or)

lemma holds_atom_zip:
  assumes "distinct vs" "length row = length vs" "length row' = length vs" "j < length vs"
  shows "holds (synthesize_atom (vs ! j, row ! j)) (zip vs row') = (row' ! j = row ! j)"
proof -
  have "map_of (zip vs row') (vs ! j) = Some (row' ! j)"
    using assms by (simp add: map_of_zip_nth)
  then show ?thesis by (auto simp: synthesize_atom_def)
qed

lemma zip_nonempty: "vs \<noteq> [] \<Longrightarrow> length row = length vs \<Longrightarrow> zip vs row \<noteq> []"
  by (cases vs; cases row) auto

lemma holds_clause_zip:
  assumes "distinct vs" "vs \<noteq> []" "length row = length vs" "length row' = length vs"
  shows "holds (clause_of (zip vs row)) (zip vs row') = (row' = row)"
proof -
  have ne: "zip vs row \<noteq> []" by (rule zip_nonempty [OF assms(2,3)])
  have "holds (clause_of (zip vs row)) (zip vs row')
        = (\<forall>j<length vs. holds (synthesize_atom (vs ! j, row ! j)) (zip vs row'))"
    unfolding holds_clause_of [OF ne] using assms(3) by (rule ball_zip)
  also have "\<dots> = (\<forall>j<length vs. row' ! j = row ! j)"
    using assms by (simp add: holds_atom_zip)
  also have "\<dots> = (row' = row)"
    using assms(3,4) by (auto intro: nth_equalityI)
  finally show ?thesis .
qed

lemma synthesize_for_model_zip:
  assumes "list_all is_variable vs" "vs \<noteq> []" "length row = length vs"
  shows "synthesize_for_model (zip vs row) = Inr (clause_of (zip vs row))"
  using assms zip_nonempty [of vs row]
  by (simp add: synthesize_for_model_def is_model_zip clause_of_def)

lemma synthesize_distinct:
  assumes ne: "vs \<noteq> []" and d: "distinct vs" and v: "list_all is_variable vs"
  shows "synthesize vs vals =
           Inr (dnf_of vs (map (\<lambda>(model, val). clause_of model)
                  (filter (\<lambda>(model, val). val) (zip (map (zip vs) (lex_rows (length vs))) vals))))"
proof -
  let ?ms = "map (zip vs) (lex_rows (length vs))"
  let ?pairs = "filter (\<lambda>(model, val). val) (zip ?ms vals)"
  have "collect (map (\<lambda>(model, val). synthesize_for_model model) ?pairs)
        = Inr (map (\<lambda>(model, val). clause_of model) ?pairs)"
  proof (rule collect_cong_Inr)
    fix x assume "x \<in> set ?pairs"
    then have "fst x \<in> set ?ms" by (auto dest: set_zip_leftD)
    then obtain row where "row \<in> set (lex_rows (length vs))" "fst x = zip vs row" by auto
    then show "(case x of (model, val) \<Rightarrow> synthesize_for_model model)
               = Inr (case x of (model, val) \<Rightarrow> clause_of model)"
      using synthesize_for_model_zip [OF v ne, of row] length_lex_row [of row "length vs"]
      by (cases x) simp
  qed
  then show ?thesis
    using ne by (simp add: synthesize_def all_models_distinct [OF d v] dnf_of_def)
qed

lemma synthesize_holds:
  assumes ne: "vs \<noteq> []" and d: "distinct vs"
    and len: "length vals = 2 ^ length vs" and k: "k < 2 ^ length vs"
  shows "holds (dnf_of vs (map (\<lambda>(model, val). clause_of model)
                  (filter (\<lambda>(model, val). val) (zip (map (zip vs) (lex_rows (length vs))) vals))))
           (zip vs (lex_rows (length vs) ! k)) = vals ! k"
proof -
  let ?rows = "lex_rows (length vs)"
  let ?ms = "map (zip vs) ?rows"
  have rowlen: "\<And>i. i < 2 ^ length vs \<Longrightarrow> length (?rows ! i) = length vs"
    by (simp add: length_lex_row)
  have "holds (dnf_of vs (map (\<lambda>(model, val). clause_of model)
                  (filter (\<lambda>(model, val). val) (zip ?ms vals)))) (zip vs (?rows ! k))
        = (\<exists>p\<in>set (zip ?ms vals). snd p \<and> holds (clause_of (fst p)) (zip vs (?rows ! k)))"
    by (force simp: holds_dnf_of)
  also have "\<dots> = (\<exists>i<2 ^ length vs. vals ! i \<and> holds (clause_of (zip vs (?rows ! i))) (zip vs (?rows ! k)))"
    using len by (auto simp add: bex_zip)
  also have "\<dots> = (\<exists>i<2 ^ length vs. vals ! i \<and> ?rows ! k = ?rows ! i)"
    using holds_clause_zip [OF d ne] rowlen k by auto
  also have "\<dots> = (\<exists>i<2 ^ length vs. vals ! i \<and> k = i)"
    using k distinct_lex_rows [of "length vs"] by (auto simp: nth_eq_iff_index_eq)
  also have "\<dots> = vals ! k" using k by auto
  finally show ?thesis .
qed

lemma synthesize_vars:
  assumes ne: "vs \<noteq> []"
  shows "set (formula_variables_list (dnf_of vs (map (\<lambda>(model, val). clause_of model)
                  (filter (\<lambda>(model, val). val) (zip (map (zip vs) (lex_rows (length vs))) vals)))))
         \<subseteq> set vs"
proof (rule vars_dnf_of [OF ne], rule ballI)
  fix c
  assume "c \<in> set (map (\<lambda>(model, val). clause_of model)
                  (filter (\<lambda>(model, val). val) (zip (map (zip vs) (lex_rows (length vs))) vals)))"
  then obtain m where "m \<in> set (map (zip vs) (lex_rows (length vs)))" and c: "c = clause_of m"
    by (auto dest: set_zip_leftD)
  then obtain row where r: "row \<in> set (lex_rows (length vs))" and m: "m = zip vs row" by auto
  have "m \<noteq> []" unfolding m by (rule zip_nonempty [OF ne length_lex_row [OF r]])
  then show "set (formula_variables_list c) \<subseteq> set vs"
    by (simp add: c vars_clause_of m keys_zip_lex_row [OF r])
qed

lemma synthesize_is_formula:
  assumes ne: "vs \<noteq> []" and v: "list_all is_variable vs"
  shows "is_formula (dnf_of vs (map (\<lambda>(model, val). clause_of model)
                  (filter (\<lambda>(model, val). val) (zip (map (zip vs) (lex_rows (length vs))) vals))))"
proof (rule is_formula_dnf_of [OF ne v], rule ballI)
  fix c
  assume "c \<in> set (map (\<lambda>(model, val). clause_of model)
                  (filter (\<lambda>(model, val). val) (zip (map (zip vs) (lex_rows (length vs))) vals)))"
  then obtain m where "m \<in> set (map (zip vs) (lex_rows (length vs)))" and c: "c = clause_of m"
    by (auto dest: set_zip_leftD)
  then obtain row where r: "row \<in> set (lex_rows (length vs))" and m: "m = zip vs row" by auto
  have "m \<noteq> []" unfolding m by (rule zip_nonempty [OF ne length_lex_row [OF r]])
  then show "is_formula c"
    by (simp add: c is_formula_clause_of m is_model_zip [OF v])
qed

text \<open>
  C8, as amended. For every nonempty list \<open>vs\<close> of distinct variable names and every
  sequence \<open>vals\<close> of \<open>2 ^ len(vs)\<close> truth values, \<open>synthesize(vs, vals)\<close> returns a
  well-formed formula whose truth values in the models of \<open>all_models(vs)\<close>, in order,
  are exactly \<open>vals\<close>; when every value is false the formula is \<open>(v & ~v)\<close> for the first
  variable \<open>v\<close>.
\<close>

theorem synthesize_round_trip:
  assumes "vs \<noteq> []" and "distinct vs" and "list_all is_variable vs"
    and "length vals = 2 ^ length vs"
  shows "\<exists>f ms. synthesize vs vals = Inr f \<and> all_models vs = Inr ms \<and> is_formula f \<and>
           truth_values f ms = Inr vals \<and>
           (list_all (\<lambda>val. \<not> val) vals \<longrightarrow>
              f = Binary ''&'' (Variable (vs ! 0)) (Unary ''~'' (Variable (vs ! 0))))"
proof -
  let ?ms = "map (zip vs) (lex_rows (length vs))"
  let ?pairs = "filter (\<lambda>(model, val). val) (zip ?ms vals)"
  let ?f = "dnf_of vs (map (\<lambda>(model, val). clause_of model) ?pairs)"
  have s: "synthesize vs vals = Inr ?f" by (rule synthesize_distinct [OF assms(1-3)])
  have a: "all_models vs = Inr ?ms" by (rule all_models_distinct [OF assms(2,3)])
  have w: "is_formula ?f" by (rule synthesize_is_formula [OF assms(1,3)])
  have "truth_values ?f ?ms = Inr (map (holds ?f) ?ms)"
    unfolding truth_values_def
  proof (rule collect_cong_Inr)
    fix m assume "m \<in> set ?ms"
    then obtain row where r: "row \<in> set (lex_rows (length vs))" and m: "m = zip vs row" by auto
    show "evaluate ?f m = Inr (holds ?f m)"
      using synthesize_vars [OF assms(1), of vals]
      by (simp add: evaluate_eq m is_model_zip [OF assms(3)] keys_zip_lex_row [OF r])
  qed
  moreover have "map (holds ?f) ?ms = vals"
  proof (rule nth_equalityI)
    show "length (map (holds ?f) ?ms) = length vals" using assms(4) by simp
  next
    fix k assume "k < length (map (holds ?f) ?ms)"
    then have k: "k < 2 ^ length vs" by simp
    then show "map (holds ?f) ?ms ! k = vals ! k"
      using synthesize_holds [OF assms(1,2,4) k] by simp
  qed
  ultimately have t: "truth_values ?f ?ms = Inr vals" by simp
  have "list_all (\<lambda>val. \<not> val) vals \<Longrightarrow> ?pairs = []"
    by (auto simp: filter_empty_conv list_all_iff dest: set_zip_rightD)
  then have e: "list_all (\<lambda>val. \<not> val) vals \<longrightarrow>
              ?f = Binary ''&'' (Variable (vs ! 0)) (Unary ''~'' (Variable (vs ! 0)))"
    by (simp add: dnf_of_def)
  from s a w t e show ?thesis by blast
qed

theorem synthesize_round_trip_witness:
  "[''p'', ''q''] \<noteq> [] \<and> distinct [''p'', ''q''] \<and> list_all is_variable [''p'', ''q''] \<and>
   length [True, True, True, False] = 2 ^ length [''p'', ''q''] \<and>
   (\<exists>f ms. synthesize [''p'', ''q''] [True, True, True, False] = Inr f \<and>
      all_models [''p'', ''q''] = Inr ms \<and>
      truth_values f ms = Inr [True, True, True, False])"
proof -
  have h1: "[''p'', ''q''] \<noteq> []" by simp
  have h2: "distinct [''p'', ''q'']" by simp
  have h3: "list_all is_variable [''p'', ''q'']" by code_simp
  have h4: "length [True, True, True, False] = 2 ^ length [''p'', ''q'']" by simp
  from synthesize_round_trip [OF h1 h2 h3 h4]
  have "\<exists>f ms. synthesize [''p'', ''q''] [True, True, True, False] = Inr f \<and>
      all_models [''p'', ''q''] = Inr ms \<and>
      truth_values f ms = Inr [True, True, True, False]" by blast
  with h1 h2 h3 h4 show ?thesis by blast
qed

text \<open>
  C8 as stated fails when a variable name is repeated: on \<open>['p', 'p']\<close> the four models
  are \<open>{p: F}, {p: T}, {p: F}, {p: T}\<close>, and for the values \<open>T, F, F, F\<close> the synthesized
  formula \<open>~p\<close> has the truth values \<open>T, F, T, F\<close>.
\<close>

theorem synthesize_round_trip_counterexample:
  "[''p'', ''p''] \<noteq> [] \<and> list_all is_variable [''p'', ''p''] \<and>
   length [True, False, False, False] = (2::nat) ^ length [''p'', ''p''] \<and>
   synthesize [''p'', ''p''] [True, False, False, False] = Inr (Unary ''~'' (Variable ''p'')) \<and>
   all_models [''p'', ''p''] =
     Inr [[(''p'', False)], [(''p'', True)], [(''p'', False)], [(''p'', True)]] \<and>
   truth_values (Unary ''~'' (Variable ''p''))
     [[(''p'', False)], [(''p'', True)], [(''p'', False)], [(''p'', True)]]
     = Inr [True, False, True, False] \<and>
   [True, False, True, False] \<noteq> [True, False, False, False]"
  by code_simp

subsection \<open>The stubs \<open>evaluate_inference\<close> and \<open>is_sound_inference\<close>\<close>

text \<open>
  C7. The docstring of \<open>evaluate_inference\<close> gives
  \<open>evaluate_inference(InferenceRule([Formula('p')], Formula('q')), {'p': False, 'q': False})\<close>
  as \<open>True\<close>, and the contract gives \<open>True\<close> there; the code returns \<open>None\<close>, and
  \<open>is_sound_inference\<close> returns \<open>None\<close> for the sound rule with no assumption and the
  conclusion \<open>(p -> p)\<close>.
\<close>

theorem evaluate_inference_stub:
  "evaluate_inference \<lparr>assumptions = [Variable ''p''], conclusion = Variable ''q''\<rparr>
     [(''p'', False), (''q'', False)] = Inr None \<and>
   evaluate_inference_contract \<lparr>assumptions = [Variable ''p''], conclusion = Variable ''q''\<rparr>
     [(''p'', False), (''q'', False)] \<and>
   is_sound_inference \<lparr>assumptions = [], conclusion = Binary ''->'' (Variable ''p'') (Variable ''p'')\<rparr>
     = Inr None \<and>
   is_sound_inference_contract
     \<lparr>assumptions = [], conclusion = Binary ''->'' (Variable ''p'') (Variable ''p'')\<rparr>"
  by code_simp

section \<open>Specialization\<close>

lemma agrees_Nil [simp]: "agrees [] s"
  by (simp add: agrees_def)

lemma agrees_substitution_of [simp]: "agrees acc (substitution_of acc)"
  by (simp add: agrees_def substitution_of_def)

lemma formula_specialization_map_complete:
  "agrees acc s \<Longrightarrow> substitute_variables s g = t \<Longrightarrow>
   \<exists>acc'. formula_specialization_map g t acc = Some acc' \<and> agrees acc' s"
proof (induction g arbitrary: t acc)
  case (Constant b)
  then show ?case by auto
next
  case (Variable v)
  then show ?case by (cases "map_of acc v") (auto simp: agrees_def)
next
  case (Unary r g)
  from Unary.prems(2) have t: "t = Unary r (substitute_variables s g)" by simp
  from Unary.IH [OF Unary.prems(1) refl] show ?case by (simp add: t)
next
  case (Binary r g1 g2)
  from Binary.prems(2)
  have t: "t = Binary r (substitute_variables s g1) (substitute_variables s g2)" by simp
  from Binary.IH(1) [OF Binary.prems(1) refl]
  obtain acc1 where a1: "formula_specialization_map g1 (substitute_variables s g1) acc = Some acc1"
    and g1: "agrees acc1 s" by blast
  from Binary.IH(2) [OF g1 refl]
  obtain acc2 where "formula_specialization_map g2 (substitute_variables s g2) acc1 = Some acc2"
    and "agrees acc2 s" by blast
  with a1 show ?case by (simp add: t)
qed

lemma formulas_specialization_map_complete:
  "agrees acc s \<Longrightarrow> map (substitute_variables s) gs = ts \<Longrightarrow>
   \<exists>acc'. formulas_specialization_map gs ts acc = Some acc' \<and> agrees acc' s"
proof (induction gs arbitrary: ts acc)
  case Nil
  then show ?case by auto
next
  case (Cons g gs)
  from Cons.prems(2) have ts: "ts = substitute_variables s g # map (substitute_variables s) gs"
    by auto
  from formula_specialization_map_complete [OF Cons.prems(1) refl, of g]
  obtain acc1 where a1: "formula_specialization_map g (substitute_variables s g) acc = Some acc1"
    and g1: "agrees acc1 s" by blast
  from Cons.IH [OF g1 refl] a1 show ?case by (simp add: ts)
qed

lemma formula_specialization_map_sound:
  "formula_specialization_map g t acc = Some acc' \<Longrightarrow> agrees acc' s \<Longrightarrow>
   agrees acc s \<and> substitute_variables s g = t"
proof (induction g t acc arbitrary: acc' rule: formula_specialization_map.induct)
  case (1 v s' acc)
  show ?case
  proof (cases "map_of acc v")
    case None
    with "1.prems" have acc': "acc' = (v, s') # acc" by simp
    from "1.prems"(2) have "s v = s'" by (simp add: agrees_def acc')
    moreover have "agrees acc s"
      unfolding agrees_def
    proof (intro allI impI)
      fix va t assume m: "map_of acc va = Some t"
      with None have "va \<noteq> v" by auto
      with m "1.prems"(2) show "s va = t" by (simp add: agrees_def acc')
    qed
    ultimately show ?thesis by simp
  next
    case (Some t)
    with "1.prems" show ?thesis by (auto simp: agrees_def split: if_splits)
  qed
next
  case (2 b s' acc)
  then show ?case by (auto split: if_splits)
next
  case (3 r g r' s' acc)
  then show ?case by (auto split: if_splits)
next
  case (5 r g1 g2 r' s1 s2 acc)
  from "5.prems"(1) obtain acc1 where rr: "r = r'"
    and a1: "formula_specialization_map g1 s1 acc = Some acc1"
    and a2: "formula_specialization_map g2 s2 acc1 = Some acc'"
    by (auto split: if_splits option.splits)
  from "5.IH"(2) [OF rr a1 a2 "5.prems"(2)]
  have b: "agrees acc1 s" "substitute_variables s g2 = s2" by auto
  from "5.IH"(1) [OF rr a1 b(1)] b rr show ?case by auto
qed auto

lemma formulas_specialization_map_sound:
  "formulas_specialization_map gs ts acc = Some acc' \<Longrightarrow> agrees acc' s \<Longrightarrow>
   agrees acc s \<and> map (substitute_variables s) gs = ts"
proof (induction gs ts acc arbitrary: acc' rule: formulas_specialization_map.induct)
  case (2 g gs t ts acc)
  from "2.prems"(1) obtain acc1 where a1: "formula_specialization_map g t acc = Some acc1"
    and a2: "formulas_specialization_map gs ts acc1 = Some acc'"
    by (auto split: option.splits)
  from "2.IH" [OF a1 a2 "2.prems"(2)] have b: "agrees acc1 s" "map (substitute_variables s) gs = ts"
    by auto
  from formula_specialization_map_sound [OF a1 b(1)] b show ?case by auto
qed auto

lemma map_append_single_eq:
  "(map f xs @ [f x] = ys @ [y]) = (map f xs = ys \<and> f x = y)"
  by auto

lemma is_specialization_of_iff: "is_specialization_of S G = specializes S G"
proof
  assume "is_specialization_of S G"
  then obtain acc where a: "formulas_specialization_map (assumptions G @ [conclusion G])
       (assumptions S @ [conclusion S]) [] = Some acc"
    by (auto simp: is_specialization_of_def specialization_map_def)
  from formulas_specialization_map_sound [OF a agrees_substitution_of]
  show "specializes S G" unfolding specializes_def by (intro exI [of _ "substitution_of acc"]) auto
next
  assume "specializes S G"
  then obtain s where "map (substitute_variables s) (assumptions G @ [conclusion G])
     = assumptions S @ [conclusion S]"
    by (auto simp: specializes_def)
  from formulas_specialization_map_complete [OF agrees_Nil this]
  show "is_specialization_of S G"
    by (auto simp: is_specialization_of_def specialization_map_def)
qed

lemma specializes_axiom:
  "assumptions r = [] \<Longrightarrow> substitute_variables s (conclusion r) = f \<Longrightarrow>
   specializes \<lparr>assumptions = [], conclusion = f\<rparr> r"
  unfolding specializes_def by (intro exI [of _ s]) simp

lemma specializes_MP: "specializes \<lparr>assumptions = [a, Implies a b], conclusion = b\<rparr> MP"
  unfolding specializes_def
  by (intro exI [of _ "\<lambda>v. if v = ''p'' then a else b"]) (simp add: MP_def)

lemma specializes_I0: "specializes \<lparr>assumptions = [], conclusion = Implies f f\<rparr> I0"
  by (rule specializes_axiom [where s = "\<lambda>v. f"]) (simp_all add: I0_def)

lemma specializes_I1:
  "specializes \<lparr>assumptions = [], conclusion = Implies f (Implies g f)\<rparr> I1"
  by (rule specializes_axiom [where s = "\<lambda>v. if v = ''p'' then f else g"]) (simp_all add: I1_def)

lemma specializes_D:
  "specializes \<lparr>assumptions = [],
      conclusion = Implies (Implies f (Implies g h)) (Implies (Implies f g) (Implies f h))\<rparr> D"
  by (rule specializes_axiom [where s = "\<lambda>v. if v = ''p'' then f else if v = ''q'' then g else h"])
     (simp_all add: D_def)

lemma specializes_I2:
  "specializes \<lparr>assumptions = [], conclusion = Implies (Negation f) (Implies f g)\<rparr> I2"
  by (rule specializes_axiom [where s = "\<lambda>v. if v = ''p'' then f else g"]) (simp_all add: I2_def)

lemma specializes_N:
  "specializes \<lparr>assumptions = [],
      conclusion = Implies (Implies (Negation f) (Negation g)) (Implies g f)\<rparr> N"
  by (rule specializes_axiom [where s = "\<lambda>v. if v = ''p'' then f else g"]) (simp_all add: N_def)

lemma specializes_MP_D:
  "specializes \<lparr>assumptions = as, conclusion = c\<rparr> MP \<Longrightarrow> \<exists>a. as = [a, Implies a c]"
  unfolding specializes_def by (auto simp: MP_def)

lemma specializes_assumptionless:
  "assumptions r = [] \<Longrightarrow> specializes \<lparr>assumptions = as, conclusion = c\<rparr> r \<Longrightarrow> as = []"
  unfolding specializes_def by auto

lemma specializes_arity:
  "specializes S G \<Longrightarrow> length (assumptions S) = length (assumptions G)"
  unfolding specializes_def by (metis length_map)

section \<open>Validity of lines\<close>

lemma is_line_valid_line_ok:
  "is_line_valid p i = line_ok (assumptions (statement p)) (rules p) (lines p) i"
  by (simp add: is_line_valid_def line_ok_def rule_for_line_def is_specialization_of_iff
      list_all_iff split: Line.splits)

lemma is_valid_lines_ok:
  "is_valid p =
     (lines p \<noteq> [] \<and> line_formula (last (lines p)) = conclusion (statement p) \<and>
      lines_ok (assumptions (statement p)) (rules p) (lines p))"
  by (auto simp add: is_valid_def lines_ok_def is_line_valid_line_ok list_all_iff)

lemma map_line_formula_append:
  "\<forall>a\<in>set as. a < length ls \<Longrightarrow>
   map (\<lambda>a. line_formula ((ls @ ls') ! a)) as = map (\<lambda>a. line_formula (ls ! a)) as"
  by (simp add: nth_append)

lemma line_ok_append:
  assumes "i < length ls"
  shows "line_ok asms rs (ls @ ls') i = line_ok asms rs ls i"
proof -
  have nth: "(ls @ ls') ! i = ls ! i" using assms by (simp add: nth_append)
  show ?thesis
  proof (cases "ls ! i")
    case (AssumptionLine f)
    then show ?thesis by (simp add: line_ok_def nth)
  next
    case (DerivedLine f r as)
    show ?thesis
    proof (cases "\<forall>a\<in>set as. a < i")
      case True
      then have "\<forall>a\<in>set as. a < length ls" using assms by auto
      from map_line_formula_append [OF this]
      have eq: "map (\<lambda>a. line_formula ((ls @ ls') ! a)) as = map (\<lambda>a. line_formula (ls ! a)) as" .
      show ?thesis unfolding line_ok_def nth DerivedLine Line.case eq ..
    next
      case False
      then show ?thesis unfolding line_ok_def nth DerivedLine Line.case by blast
    qed
  qed
qed

lemma line_ok_mono:
  "line_ok asms rs ls i \<Longrightarrow> set asms \<subseteq> set asms' \<Longrightarrow> rs \<subseteq> rs' \<Longrightarrow> line_ok asms' rs' ls i"
  by (auto simp: line_ok_def split: Line.splits)

lemma lines_ok_mono:
  "lines_ok asms rs ls \<Longrightarrow> set asms \<subseteq> set asms' \<Longrightarrow> rs \<subseteq> rs' \<Longrightarrow> lines_ok asms' rs' ls"
  unfolding lines_ok_def using line_ok_mono by blast

lemma lines_ok_snoc:
  assumes "lines_ok asms rs ls" and "line_ok asms rs (ls @ [l]) (length ls)"
  shows "lines_ok asms rs (ls @ [l])"
  unfolding lines_ok_def
proof (intro allI impI)
  fix i assume "i < length (ls @ [l])"
  then consider "i < length ls" | "i = length ls" by fastforce
  then show "line_ok asms rs (ls @ [l]) i"
  proof cases
    case 1
    with assms(1) show ?thesis by (simp add: line_ok_append lines_ok_def)
  next
    case 2
    with assms(2) show ?thesis by simp
  qed
qed

lemma lines_ok_snoc_assumption:
  "lines_ok asms rs ls \<Longrightarrow> f \<in> set asms \<Longrightarrow> lines_ok asms rs (ls @ [AssumptionLine f])"
  by (rule lines_ok_snoc) (simp_all add: line_ok_def)

lemma lines_ok_snoc_derived:
  assumes "lines_ok asms rs ls" and "r \<in> rs" and "\<forall>a\<in>set as. a < length ls"
    and "specializes \<lparr>assumptions = map (\<lambda>a. line_formula (ls ! a)) as, conclusion = f\<rparr> r"
  shows "lines_ok asms rs (ls @ [DerivedLine f r as])"
proof (rule lines_ok_snoc [OF assms(1)])
  have eq: "map (\<lambda>a. line_formula ((ls @ [DerivedLine f r as]) ! a)) as
        = map (\<lambda>a. line_formula (ls ! a)) as"
    by (rule map_line_formula_append [OF assms(3)])
  have nth: "(ls @ [DerivedLine f r as]) ! length ls = DerivedLine f r as" by simp
  show "line_ok asms rs (ls @ [DerivedLine f r as]) (length ls)"
    unfolding line_ok_def nth Line.case eq using assms(2-4) by simp
qed

lemma lines_ok_snoc_axiom:
  assumes "lines_ok asms rs ls" and "r \<in> rs"
    and "specializes \<lparr>assumptions = [], conclusion = f\<rparr> r"
  shows "lines_ok asms rs (ls @ [DerivedLine f r []])"
  using assms by (intro lines_ok_snoc_derived) simp_all

lemma lines_ok_snoc_MP:
  assumes "lines_ok asms rs ls" and "MP \<in> rs" and "i < length ls" and "j < length ls"
    and "line_formula (ls ! j) = Implies (line_formula (ls ! i)) f"
  shows "lines_ok asms rs (ls @ [DerivedLine f MP [i, j]])"
  using assms specializes_MP [of "line_formula (ls ! i)" f]
  by (intro lines_ok_snoc_derived) simp_all

lemma lines_ok_references_backward: "lines_ok asms rs ls \<Longrightarrow> references_backward ls"
  unfolding lines_ok_def references_backward_def list_all_iff
proof (intro ballI)
  fix i a
  assume ok: "\<forall>i<length ls. line_ok asms rs ls i" and i: "i \<in> set [0..<length ls]"
    and a: "a \<in> set (line_references (ls ! i))"
  from i ok have "line_ok asms rs ls i" by simp
  with a show "a < i" by (cases "ls ! i") (auto simp: line_ok_def)
qed

lemma is_valid_references_backward: "is_valid p \<Longrightarrow> references_backward (lines p)"
  using lines_ok_references_backward by (auto simp: is_valid_lines_ok)


section \<open>\<open>prove_corollary\<close> and \<open>combine_proofs\<close>\<close>

lemma line_formula_shift_line [simp]: "line_formula (shift_line n l) = line_formula l"
  by (cases l) simp_all

lemma line_references_shift_line [simp]:
  "line_references (shift_line n l) = map (\<lambda>a. a + n) (line_references l)"
  by (cases l) simp_all

lemma last_map_shift_line:
  "ls \<noteq> [] \<Longrightarrow> line_formula (last (map (shift_line n) ls)) = line_formula (last ls)"
  by (simp add: last_map)

lemma line_ok_shifted:
  assumes ok: "line_ok asms rs ls2 k" and k: "k < length ls2"
  shows "line_ok asms rs (ls1 @ map (shift_line (length ls1)) ls2) (length ls1 + k)"
proof -
  let ?n = "length ls1"
  let ?ls = "ls1 @ map (shift_line ?n) ls2"
  have nth: "?ls ! (?n + k) = shift_line ?n (ls2 ! k)" using k by (simp add: nth_append)
  show ?thesis
  proof (cases "ls2 ! k")
    case (AssumptionLine f)
    with ok have "f \<in> set asms" by (simp add: line_ok_def)
    then show ?thesis unfolding line_ok_def nth AssumptionLine shift_line.simps Line.case .
  next
    case (DerivedLine f r as)
    from ok DerivedLine have r: "r \<in> rs" and lt: "\<forall>a\<in>set as. a < k"
      and sp: "specializes \<lparr>assumptions = map (\<lambda>a. line_formula (ls2 ! a)) as, conclusion = f\<rparr> r"
      by (simp_all add: line_ok_def)
    have eq: "map (\<lambda>a. line_formula (?ls ! a)) (map (\<lambda>a. a + ?n) as)
          = map (\<lambda>a. line_formula (ls2 ! a)) as"
      using lt k by (auto simp: nth_append)
    have sp': "specializes
        \<lparr>assumptions = map (\<lambda>a. line_formula (?ls ! a)) (map (\<lambda>a. a + ?n) as), conclusion = f\<rparr> r"
      unfolding eq by (rule sp)
    have lt': "\<forall>a\<in>set (map (\<lambda>a. a + ?n) as). a < ?n + k" using lt by auto
    show ?thesis
      unfolding line_ok_def nth DerivedLine shift_line.simps Line.case
      using r lt' sp' by blast
  qed
qed

lemma lines_ok_append_shift:
  assumes "lines_ok asms rs ls1" and "lines_ok asms rs ls2"
  shows "lines_ok asms rs (ls1 @ map (shift_line (length ls1)) ls2)"
  unfolding lines_ok_def
proof (intro allI impI)
  fix i assume i: "i < length (ls1 @ map (shift_line (length ls1)) ls2)"
  show "line_ok asms rs (ls1 @ map (shift_line (length ls1)) ls2) i"
  proof (cases "i < length ls1")
    case True
    with assms(1) show ?thesis by (simp add: line_ok_append lines_ok_def)
  next
    case False
    then obtain k where k: "i = length ls1 + k" "k < length ls2"
      using i by (metis add_diff_inverse_nat length_append length_map nat_add_left_cancel_less)
    with assms(2) have "line_ok asms rs ls2 k" by (simp add: lines_ok_def)
    from line_ok_shifted [OF this k(2)] k(1) show ?thesis by simp
  qed
qed

lemma prove_corollary_result:
  assumes v: "is_valid antecedent_proof"
    and s: "is_specialization_of
              \<lparr>assumptions = [],
               conclusion = Implies (conclusion (statement antecedent_proof)) consequent\<rparr>
              conditional"
  shows "prove_corollary antecedent_proof consequent conditional =
           Inr \<lparr>statement = \<lparr>assumptions = assumptions (statement antecedent_proof),
                               conclusion = consequent\<rparr>,
                 rules = rules antecedent_proof \<union> {MP, conditional},
                 lines = lines antecedent_proof @
                   [DerivedLine (Implies (conclusion (statement antecedent_proof)) consequent)
                      conditional [],
                    DerivedLine consequent MP
                      [length (lines antecedent_proof) - 1, length (lines antecedent_proof)]]\<rparr>"
  using v s by (simp add: prove_corollary_def Let_def)

lemma prove_corollary_valid:
  assumes v: "is_valid antecedent_proof"
    and s: "is_specialization_of
              \<lparr>assumptions = [],
               conclusion = Implies (conclusion (statement antecedent_proof)) consequent\<rparr>
              conditional"
  shows "is_valid
           \<lparr>statement = \<lparr>assumptions = assumptions (statement antecedent_proof),
                               conclusion = consequent\<rparr>,
                 rules = rules antecedent_proof \<union> {MP, conditional},
                 lines = lines antecedent_proof @
                   [DerivedLine (Implies (conclusion (statement antecedent_proof)) consequent)
                      conditional [],
                    DerivedLine consequent MP
                      [length (lines antecedent_proof) - 1, length (lines antecedent_proof)]]\<rparr>"
proof -
  let ?asms = "assumptions (statement antecedent_proof)"
  let ?rs = "rules antecedent_proof \<union> {MP, conditional}"
  let ?ls = "lines antecedent_proof"
  let ?a = "conclusion (statement antecedent_proof)"
  let ?l1 = "DerivedLine (Implies ?a consequent) conditional []"
  from v have ne: "?ls \<noteq> []" and la: "line_formula (last ?ls) = ?a"
    and ok: "lines_ok ?asms (rules antecedent_proof) ?ls"
    by (simp_all add: is_valid_lines_ok)
  have ok0: "lines_ok ?asms ?rs ?ls" by (rule lines_ok_mono [OF ok]) auto
  have ok1: "lines_ok ?asms ?rs (?ls @ [?l1])"
    using s by (intro lines_ok_snoc_axiom [OF ok0]) (simp_all add: is_specialization_of_iff)
  have f1: "line_formula ((?ls @ [?l1]) ! (length ?ls - 1)) = ?a"
    using ne la by (simp add: nth_append last_conv_nth)
  have ok2: "lines_ok ?asms ?rs
      ((?ls @ [?l1]) @ [DerivedLine consequent MP [length ?ls - 1, length ?ls]])"
    using ne f1 by (intro lines_ok_snoc_MP [OF ok1]) simp_all
  then show ?thesis by (simp add: is_valid_lines_ok)
qed

text \<open>
  C5. For a valid proof of \<open>antecedent\<close> and a rule \<open>conditional\<close> of which the
  assumptionless rule with the conclusion \<open>(antecedent -> consequent)\<close> is a
  specialization, \<open>prove_corollary\<close> returns a proof whose lines are the lines of the
  given proof followed by exactly two lines: the line of \<open>(antecedent -> consequent)\<close> by
  \<open>conditional\<close> with no references, and the line of \<open>consequent\<close> by MP from the last
  line of the given proof and that line. The formula of its last line is \<open>consequent\<close>,
  its assumptions are those of the given proof, its rules are the rules of the given
  proof with MP and \<open>conditional\<close>, and it is valid.
\<close>

theorem prove_corollary_appends_two_lines:
  assumes "is_valid antecedent_proof"
    and "is_specialization_of
           \<lparr>assumptions = [],
            conclusion = Implies (conclusion (statement antecedent_proof)) consequent\<rparr>
           conditional"
  shows "\<exists>p. prove_corollary antecedent_proof consequent conditional = Inr p \<and>
           lines p = lines antecedent_proof @
             [DerivedLine (Implies (conclusion (statement antecedent_proof)) consequent)
                conditional [],
              DerivedLine consequent MP
                [length (lines antecedent_proof) - 1, length (lines antecedent_proof)]] \<and>
           line_formula (last (lines p)) = consequent \<and>
           assumptions (statement p) = assumptions (statement antecedent_proof) \<and>
           conclusion (statement p) = consequent \<and>
           rules p = rules antecedent_proof \<union> {MP, conditional} \<and>
           assumptions conditional = [] \<and>
           is_valid p"
proof -
  have "assumptions conditional = []"
    using specializes_arity [OF assms(2) [unfolded is_specialization_of_iff]] by simp
  with prove_corollary_result [OF assms] prove_corollary_valid [OF assms]
  show ?thesis by simp
qed

theorem prove_corollary_appends_two_lines_witness:
  "is_valid example_proof \<and>
   is_specialization_of
     \<lparr>assumptions = [],
      conclusion = Implies (conclusion (statement example_proof)) (Variable ''z'')\<rparr>
     \<lparr>assumptions = [], conclusion = Implies (Variable ''x'') (Variable ''y'')\<rparr> \<and>
   (\<exists>p. prove_corollary example_proof (Variable ''z'')
          \<lparr>assumptions = [], conclusion = Implies (Variable ''x'') (Variable ''y'')\<rparr> = Inr p \<and>
        length (lines p) = 5 \<and> line_formula (last (lines p)) = Variable ''z'' \<and> is_valid p)"
proof -
  let ?c = "\<lparr>assumptions = [], conclusion = Implies (Variable ''x'') (Variable ''y'')\<rparr>"
  have h1: "is_valid example_proof" by code_simp
  have h2: "is_specialization_of
     \<lparr>assumptions = [],
      conclusion = Implies (conclusion (statement example_proof)) (Variable ''z'')\<rparr> ?c"
    by code_simp
  from prove_corollary_appends_two_lines [OF h1 h2]
  obtain p where p: "prove_corollary example_proof (Variable ''z'') ?c = Inr p"
    and l: "lines p = lines example_proof @
             [DerivedLine (Implies (conclusion (statement example_proof)) (Variable ''z'')) ?c [],
              DerivedLine (Variable ''z'') MP
                [length (lines example_proof) - 1, length (lines example_proof)]]"
    and f: "line_formula (last (lines p)) = Variable ''z''" and v: "is_valid p"
    by blast
  have "length (lines p) = 5" unfolding l by (simp add: example_proof_def)
  with h1 h2 p f v show ?thesis by blast
qed

lemma combine_proofs_result:
  assumes "is_valid p1" and "is_valid p2"
    and "assumptions (statement p1) = assumptions (statement p2)" and "rules p1 = rules p2"
    and "is_specialization_of
           \<lparr>assumptions = [],
            conclusion = Implies (conclusion (statement p1))
                           (Implies (conclusion (statement p2)) consequent)\<rparr>
           double_conditional"
  shows "combine_proofs p1 p2 consequent double_conditional =
           Inr \<lparr>statement = \<lparr>assumptions = assumptions (statement p1), conclusion = consequent\<rparr>,
                 rules = rules p1 \<union> {MP, double_conditional},
                 lines = lines p1 @ map (shift_line (length (lines p1))) (lines p2) @
                   [DerivedLine (Implies (conclusion (statement p1))
                                   (Implies (conclusion (statement p2)) consequent))
                      double_conditional [],
                    DerivedLine (Implies (conclusion (statement p2)) consequent) MP
                      [length (lines p1) - 1, length (lines p1) + length (lines p2)],
                    DerivedLine consequent MP
                      [length (lines p1) + length (lines p2) - 1,
                       length (lines p1) + length (lines p2) + 1]]\<rparr>"
  using assms by (simp add: combine_proofs_def Let_def)

lemma combine_proofs_valid:
  assumes v1: "is_valid p1" and v2: "is_valid p2"
    and a: "assumptions (statement p1) = assumptions (statement p2)" and r: "rules p1 = rules p2"
    and s: "is_specialization_of
           \<lparr>assumptions = [],
            conclusion = Implies (conclusion (statement p1))
                           (Implies (conclusion (statement p2)) consequent)\<rparr>
           double_conditional"
  shows "is_valid
           \<lparr>statement = \<lparr>assumptions = assumptions (statement p1), conclusion = consequent\<rparr>,
                 rules = rules p1 \<union> {MP, double_conditional},
                 lines = lines p1 @ map (shift_line (length (lines p1))) (lines p2) @
                   [DerivedLine (Implies (conclusion (statement p1))
                                   (Implies (conclusion (statement p2)) consequent))
                      double_conditional [],
                    DerivedLine (Implies (conclusion (statement p2)) consequent) MP
                      [length (lines p1) - 1, length (lines p1) + length (lines p2)],
                    DerivedLine consequent MP
                      [length (lines p1) + length (lines p2) - 1,
                       length (lines p1) + length (lines p2) + 1]]\<rparr>"
proof -
  let ?asms = "assumptions (statement p1)"
  let ?rs = "rules p1 \<union> {MP, double_conditional}"
  let ?n1 = "length (lines p1)"
  let ?n2 = "length (lines p2)"
  let ?a1 = "conclusion (statement p1)"
  let ?a2 = "conclusion (statement p2)"
  let ?ls = "lines p1 @ map (shift_line ?n1) (lines p2)"
  let ?ax = "DerivedLine (Implies ?a1 (Implies ?a2 consequent)) double_conditional []"
  let ?m1 = "DerivedLine (Implies ?a2 consequent) MP [?n1 - 1, ?n1 + ?n2]"
  let ?m2 = "DerivedLine consequent MP [?n1 + ?n2 - 1, ?n1 + ?n2 + 1]"
  from v1 have ne1: "lines p1 \<noteq> []" and l1: "line_formula (last (lines p1)) = ?a1"
    and ok1: "lines_ok ?asms (rules p1) (lines p1)"
    by (simp_all add: is_valid_lines_ok)
  from v2 a r have ne2: "lines p2 \<noteq> []" and l2: "line_formula (last (lines p2)) = ?a2"
    and ok2: "lines_ok ?asms (rules p1) (lines p2)"
    by (simp_all add: is_valid_lines_ok)
  have len: "length ?ls = ?n1 + ?n2" by simp
  have "lines_ok ?asms (rules p1) ?ls" by (rule lines_ok_append_shift [OF ok1 ok2])
  then have ok: "lines_ok ?asms ?rs ?ls" by (rule lines_ok_mono) auto
  have okax: "lines_ok ?asms ?rs (?ls @ [?ax])"
    using s by (intro lines_ok_snoc_axiom [OF ok]) (simp_all add: is_specialization_of_iff)
  have f1: "line_formula ((?ls @ [?ax]) ! (?n1 - 1)) = ?a1"
    using ne1 l1 by (simp add: nth_append last_conv_nth)
  have fax: "line_formula ((?ls @ [?ax]) ! (?n1 + ?n2)) = Implies ?a1 (Implies ?a2 consequent)"
    using nth_append_length [of ?ls ?ax "[]"] unfolding len by simp
  have okm1: "lines_ok ?asms ?rs ((?ls @ [?ax]) @ [?m1])"
  proof (rule lines_ok_snoc_MP [OF okax])
    show "MP \<in> ?rs" by simp
    show "?n1 - 1 < length (?ls @ [?ax])" by simp
    show "?n1 + ?n2 < length (?ls @ [?ax])" by simp
    show "line_formula ((?ls @ [?ax]) ! (?n1 + ?n2))
          = Implies (line_formula ((?ls @ [?ax]) ! (?n1 - 1))) (Implies ?a2 consequent)"
      unfolding f1 fax ..
  qed
  have idx: "?n1 + ?n2 - 1 = ?n1 + (?n2 - 1)" using ne2 by (cases "lines p2") simp_all
  have "?ls ! (?n1 + (?n2 - 1)) = shift_line ?n1 (lines p2 ! (?n2 - 1))"
    using ne2 by (simp add: nth_append)
  then have "line_formula (?ls ! (?n1 + ?n2 - 1)) = ?a2"
    unfolding idx using ne2 l2 by (simp add: last_conv_nth)
  moreover have "((?ls @ [?ax]) @ [?m1]) ! (?n1 + ?n2 - 1) = ?ls ! (?n1 + ?n2 - 1)"
    unfolding idx using ne2 by (simp add: nth_append)
  ultimately have f2: "line_formula (((?ls @ [?ax]) @ [?m1]) ! (?n1 + ?n2 - 1)) = ?a2" by simp
  have fm1: "line_formula (((?ls @ [?ax]) @ [?m1]) ! (?n1 + ?n2 + 1)) = Implies ?a2 consequent"
    using nth_append_length [of "?ls @ [?ax]" ?m1 "[]"] unfolding length_append len by simp
  have okm2: "lines_ok ?asms ?rs (((?ls @ [?ax]) @ [?m1]) @ [?m2])"
  proof (rule lines_ok_snoc_MP [OF okm1])
    show "MP \<in> ?rs" by simp
    show "?n1 + ?n2 - 1 < length ((?ls @ [?ax]) @ [?m1])" by simp
    show "?n1 + ?n2 + 1 < length ((?ls @ [?ax]) @ [?m1])" by simp
    show "line_formula (((?ls @ [?ax]) @ [?m1]) ! (?n1 + ?n2 + 1))
          = Implies (line_formula (((?ls @ [?ax]) @ [?m1]) ! (?n1 + ?n2 - 1))) consequent"
      unfolding f2 fm1 ..
  qed
  then show ?thesis by (simp add: is_valid_lines_ok)
qed

text \<open>
  C3. For valid proofs \<open>p1\<close> of \<open>antecedent1\<close> and \<open>p2\<close> of \<open>antecedent2\<close> with the same
  assumptions and the same rules, and a rule \<open>double_conditional\<close> of which the
  assumptionless rule with the conclusion \<open>(antecedent1 -> (antecedent2 -> consequent))\<close>
  is a specialization, \<open>combine_proofs\<close> returns a proof whose lines are: the lines of
  \<open>p1\<close>; the lines of \<open>p2\<close>, each with the same formula and rule and with every index it
  refers to increased by \<open>len(p1.lines)\<close>; the line of the axiom; the MP line from the
  last line of \<open>p1\<close> and the axiom line, proving \<open>(antecedent2 -> consequent)\<close>; and the
  MP line from the last line of \<open>p2\<close> (shifted) and that line, proving \<open>consequent\<close>. Its
  assumptions are the shared ones, its rules the shared ones with MP and
  \<open>double_conditional\<close>, and it is valid.
\<close>

theorem combine_proofs_lines:
  assumes "is_valid p1" and "is_valid p2"
    and "assumptions (statement p1) = assumptions (statement p2)" and "rules p1 = rules p2"
    and "is_specialization_of
           \<lparr>assumptions = [],
            conclusion = Implies (conclusion (statement p1))
                           (Implies (conclusion (statement p2)) consequent)\<rparr>
           double_conditional"
  shows "\<exists>p. combine_proofs p1 p2 consequent double_conditional = Inr p \<and>
           lines p = lines p1 @ map (shift_line (length (lines p1))) (lines p2) @
             [DerivedLine (Implies (conclusion (statement p1))
                             (Implies (conclusion (statement p2)) consequent))
                double_conditional [],
              DerivedLine (Implies (conclusion (statement p2)) consequent) MP
                [length (lines p1) - 1, length (lines p1) + length (lines p2)],
              DerivedLine consequent MP
                [length (lines p1) + length (lines p2) - 1,
                 length (lines p1) + length (lines p2) + 1]] \<and>
           (\<forall>k<length (lines p2).
              line_formula (lines p ! (length (lines p1) + k)) = line_formula (lines p2 ! k) \<and>
              is_assumption (lines p ! (length (lines p1) + k)) = is_assumption (lines p2 ! k) \<and>
              line_references (lines p ! (length (lines p1) + k))
                = map (\<lambda>a. a + length (lines p1)) (line_references (lines p2 ! k))) \<and>
           line_formula (lines p ! (length (lines p1) - 1)) = conclusion (statement p1) \<and>
           line_formula (lines p ! (length (lines p1) + length (lines p2) - 1))
             = conclusion (statement p2) \<and>
           assumptions (statement p) = assumptions (statement p1) \<and>
           conclusion (statement p) = consequent \<and>
           rules p = rules p1 \<union> {MP, double_conditional} \<and>
           is_valid p"
proof -
  let ?n1 = "length (lines p1)"
  let ?tl = "[DerivedLine (Implies (conclusion (statement p1))
                             (Implies (conclusion (statement p2)) consequent))
                double_conditional [],
              DerivedLine (Implies (conclusion (statement p2)) consequent) MP
                [length (lines p1) - 1, length (lines p1) + length (lines p2)],
              DerivedLine consequent MP
                [length (lines p1) + length (lines p2) - 1,
                 length (lines p1) + length (lines p2) + 1]]"
  let ?ls = "lines p1 @ map (shift_line ?n1) (lines p2) @ ?tl"
  from assms(1) have ne1: "lines p1 \<noteq> []" and l1: "line_formula (last (lines p1)) = conclusion (statement p1)"
    by (simp_all add: is_valid_lines_ok)
  from assms(2) have ne2: "lines p2 \<noteq> []" and l2: "line_formula (last (lines p2)) = conclusion (statement p2)"
    by (simp_all add: is_valid_lines_ok)
  have nth: "\<And>k. k < length (lines p2) \<Longrightarrow> ?ls ! (?n1 + k) = shift_line ?n1 (lines p2 ! k)"
    by (simp add: nth_append)
  have a: "\<forall>k<length (lines p2).
              line_formula (?ls ! (?n1 + k)) = line_formula (lines p2 ! k) \<and>
              is_assumption (?ls ! (?n1 + k)) = is_assumption (lines p2 ! k) \<and>
              line_references (?ls ! (?n1 + k))
                = map (\<lambda>a. a + ?n1) (line_references (lines p2 ! k))"
  proof (intro allI impI)
    fix k assume k: "k < length (lines p2)"
    show "line_formula (?ls ! (?n1 + k)) = line_formula (lines p2 ! k) \<and>
              is_assumption (?ls ! (?n1 + k)) = is_assumption (lines p2 ! k) \<and>
              line_references (?ls ! (?n1 + k))
                = map (\<lambda>a. a + ?n1) (line_references (lines p2 ! k))"
      unfolding nth [OF k] by (cases "lines p2 ! k") simp_all
  qed
  have b: "line_formula (?ls ! (?n1 - 1)) = conclusion (statement p1)"
    using ne1 l1 by (simp add: nth_append last_conv_nth)
  have idx: "?n1 + length (lines p2) - 1 = ?n1 + (length (lines p2) - 1)"
    using ne2 by (cases "lines p2") simp_all
  have "?ls ! (?n1 + (length (lines p2) - 1)) = shift_line ?n1 (lines p2 ! (length (lines p2) - 1))"
    using ne2 by (intro nth) simp
  then have "line_formula (?ls ! (?n1 + (length (lines p2) - 1))) = conclusion (statement p2)"
    using ne2 l2 by (simp add: last_conv_nth)
  then have c: "line_formula (?ls ! (?n1 + length (lines p2) - 1)) = conclusion (statement p2)"
    unfolding idx .
  from combine_proofs_result [OF assms] combine_proofs_valid [OF assms] a b c
  show ?thesis by simp
qed

theorem combine_proofs_lines_witness:
  "is_valid example_assumption_proof \<and> is_valid example_proof \<and>
   assumptions (statement example_assumption_proof) = assumptions (statement example_proof) \<and>
   rules example_assumption_proof = rules example_proof \<and>
   is_specialization_of
     \<lparr>assumptions = [],
      conclusion = Implies (conclusion (statement example_assumption_proof))
                     (Implies (conclusion (statement example_proof)) (Variable ''q''))\<rparr> example_double_conditional \<and>
   (\<exists>p. combine_proofs example_assumption_proof example_proof (Variable ''q'') example_double_conditional = Inr p \<and>
        length (lines p) = 7 \<and> line_references (lines p ! 3) = [1, 2] \<and> is_valid p)"
proof -
  have h1: "is_valid example_assumption_proof" by code_simp
  have h2: "is_valid example_proof" by code_simp
  have h3: "assumptions (statement example_assumption_proof) = assumptions (statement example_proof)"
    by code_simp
  have h4: "rules example_assumption_proof = rules example_proof"
    by (simp add: example_assumption_proof_def example_proof_def)
  have h5: "is_specialization_of
     \<lparr>assumptions = [],
      conclusion = Implies (conclusion (statement example_assumption_proof))
                     (Implies (conclusion (statement example_proof)) (Variable ''q''))\<rparr> example_double_conditional"
    by code_simp
  from combine_proofs_lines [OF h1 h2 h3 h4 h5]
  obtain p where p: "combine_proofs example_assumption_proof example_proof (Variable ''q'') example_double_conditional = Inr p"
    and l: "lines p = lines example_assumption_proof @
              map (shift_line (length (lines example_assumption_proof))) (lines example_proof) @
             [DerivedLine (Implies (conclusion (statement example_assumption_proof))
                             (Implies (conclusion (statement example_proof)) (Variable ''q'')))
                example_double_conditional [],
              DerivedLine (Implies (conclusion (statement example_proof)) (Variable ''q'')) MP
                [length (lines example_assumption_proof) - 1,
                 length (lines example_assumption_proof) + length (lines example_proof)],
              DerivedLine (Variable ''q'') MP
                [length (lines example_assumption_proof) + length (lines example_proof) - 1,
                 length (lines example_assumption_proof) + length (lines example_proof) + 1]]"
    and v: "is_valid p"
    by blast
  have "length (lines p) = 7" unfolding l
    by (simp add: example_proof_def example_assumption_proof_def)
  moreover have "line_references (lines p ! 3) = [1, 2]" unfolding l
    by (simp add: example_proof_def example_assumption_proof_def)
  ultimately show ?thesis using h1 h2 h3 h4 h5 p v by blast
qed


section \<open>\<open>remove_assumption\<close>: the deduction theorem\<close>

lemma nth_snoc_length: "(xs @ [x]) ! length xs = x"
  by simp

lemma step_weakening:
  assumes ok: "lines_ok gamma rs new" and I1: "I1 \<in> rs" and MP: "MP \<in> rs"
    and l: "lines_ok gamma rs (new @ [l])" and f: "line_formula l = f"
  shows "lines_ok gamma rs
           (new @ [l, DerivedLine (Implies f (Implies psi f)) I1 [],
                   DerivedLine (Implies psi f) MP [length new, length new + 1]])"
proof -
  let ?l1 = "DerivedLine (Implies f (Implies psi f)) I1 []"
  have ok1: "lines_ok gamma rs ((new @ [l]) @ [?l1])"
    by (rule lines_ok_snoc_axiom [OF l I1 specializes_I1])
  have a: "line_formula (((new @ [l]) @ [?l1]) ! length new) = f"
    using f by (simp add: nth_append)
  have b: "line_formula (((new @ [l]) @ [?l1]) ! (length new + 1)) = Implies f (Implies psi f)"
    using nth_snoc_length [of "new @ [l]" ?l1] by simp
  have "lines_ok gamma rs (((new @ [l]) @ [?l1]) @
           [DerivedLine (Implies psi f) MP [length new, length new + 1]])"
  proof (rule lines_ok_snoc_MP [OF ok1 MP])
    show "length new < length ((new @ [l]) @ [?l1])" by simp
    show "length new + 1 < length ((new @ [l]) @ [?l1])" by simp
    show "line_formula (((new @ [l]) @ [?l1]) ! (length new + 1))
          = Implies (line_formula (((new @ [l]) @ [?l1]) ! length new)) (Implies psi f)"
      unfolding a b ..
  qed
  then show ?thesis by simp
qed

lemma step_distribution:
  assumes ok: "lines_ok gamma rs new" and D: "D \<in> rs" and MP: "MP \<in> rs"
    and tk: "tk < length new" and fk: "line_formula (new ! tk) = Implies psi (Implies x f)"
    and tj: "tj < length new" and fj: "line_formula (new ! tj) = Implies psi x"
  shows "lines_ok gamma rs
           (new @ [DerivedLine (Implies (Implies psi (Implies x f))
                                  (Implies (Implies psi x) (Implies psi f))) D [],
                   DerivedLine (Implies (Implies psi x) (Implies psi f)) MP [tk, length new],
                   DerivedLine (Implies psi f) MP [tj, length new + 1]])"
proof -
  let ?d = "DerivedLine (Implies (Implies psi (Implies x f))
                                  (Implies (Implies psi x) (Implies psi f))) D []"
  let ?m = "DerivedLine (Implies (Implies psi x) (Implies psi f)) MP [tk, length new]"
  have ok1: "lines_ok gamma rs (new @ [?d])"
    by (rule lines_ok_snoc_axiom [OF ok D specializes_D])
  have a: "line_formula ((new @ [?d]) ! tk) = Implies psi (Implies x f)"
    using tk fk by (simp add: nth_append)
  have b: "line_formula ((new @ [?d]) ! length new)
           = Implies (Implies psi (Implies x f)) (Implies (Implies psi x) (Implies psi f))"
    by simp
  have ok2: "lines_ok gamma rs ((new @ [?d]) @ [?m])"
  proof (rule lines_ok_snoc_MP [OF ok1 MP])
    show "tk < length (new @ [?d])" using tk by simp
    show "length new < length (new @ [?d])" by simp
    show "line_formula ((new @ [?d]) ! length new)
          = Implies (line_formula ((new @ [?d]) ! tk)) (Implies (Implies psi x) (Implies psi f))"
      unfolding a b ..
  qed
  have c: "line_formula (((new @ [?d]) @ [?m]) ! tj) = Implies psi x"
    using tj fj by (simp add: nth_append)
  have e: "line_formula (((new @ [?d]) @ [?m]) ! (length new + 1))
           = Implies (Implies psi x) (Implies psi f)"
    using nth_snoc_length [of "new @ [?d]" ?m] by simp
  have "lines_ok gamma rs (((new @ [?d]) @ [?m]) @
          [DerivedLine (Implies psi f) MP [tj, length new + 1]])"
  proof (rule lines_ok_snoc_MP [OF ok2 MP])
    show "tj < length ((new @ [?d]) @ [?m])" using tj by simp
    show "length new + 1 < length ((new @ [?d]) @ [?m])" by simp
    show "line_formula (((new @ [?d]) @ [?m]) ! (length new + 1))
          = Implies (line_formula (((new @ [?d]) @ [?m]) ! tj)) (Implies psi f)"
      unfolding c e ..
  qed
  then show ?thesis by simp
qed

lemma remove_assumption_step_ok:
  assumes inv: "removal_invariant psi gamma rs' all i mapping new"
    and line: "line_ok (gamma @ [psi]) rs all i" and i: "i < length all"
    and R: "\<forall>r\<in>rs. r = MP \<or> assumptions r = []"
    and sub: "rs \<subseteq> rs'" and MP: "MP \<in> rs'" and I0: "I0 \<in> rs'" and I1: "I1 \<in> rs'"
    and D: "D \<in> rs'"
  shows "\<exists>extra. remove_assumption_step psi all mapping new (all ! i) = Inr (new @ extra) \<and>
           extra \<noteq> [] \<and> lines_ok gamma rs' (new @ extra) \<and>
           line_formula (last (new @ extra)) = Implies psi (line_formula (all ! i))"
proof -
  from inv have ok: "lines_ok gamma rs' new"
    and m: "\<And>i'. i' < i \<Longrightarrow> \<exists>t. mapping i' = Some t \<and> t < length new \<and>
                   line_formula (new ! t) = Implies psi (line_formula (all ! i'))"
    by (simp_all add: removal_invariant_def)
  show ?thesis
  proof (cases "all ! i")
    case (AssumptionLine f)
    with line have f: "f \<in> set (gamma @ [psi])" by (simp add: line_ok_def)
    show ?thesis
    proof (cases "f = psi")
      case True
      have "lines_ok gamma rs' (new @ [DerivedLine (Implies psi psi) I0 []])"
        by (rule lines_ok_snoc_axiom [OF ok I0 specializes_I0])
      then show ?thesis
        using True AssumptionLine
        by (intro exI [of _ "[DerivedLine (Implies psi psi) I0 []]"])
           (simp add: remove_assumption_step_def)
    next
      case False
      with f have "f \<in> set gamma" by simp
      then have l: "lines_ok gamma rs' (new @ [AssumptionLine f])"
        by (rule lines_ok_snoc_assumption [OF ok])
      from step_weakening [OF ok I1 MP l, of f psi]
      have "lines_ok gamma rs'
           (new @ [AssumptionLine f, DerivedLine (Implies f (Implies psi f)) I1 [],
                   DerivedLine (Implies psi f) MP [length new, length new + 1]])" by simp
      then show ?thesis
        using False AssumptionLine
        by (intro exI [of _ "[AssumptionLine f, DerivedLine (Implies f (Implies psi f)) I1 [],
                   DerivedLine (Implies psi f) MP [length new, length new + 1]]"])
           (simp add: remove_assumption_step_def Let_def)
    qed
  next
    case (DerivedLine f r as)
    with line have r: "r \<in> rs" and lt: "\<forall>a\<in>set as. a < i"
      and sp: "specializes \<lparr>assumptions = map (\<lambda>a. line_formula (all ! a)) as, conclusion = f\<rparr> r"
      by (simp_all add: line_ok_def)
    show ?thesis
    proof (cases "assumptions r = []")
      case True
      from specializes_assumptionless [OF True sp] have as: "as = []" by simp
      from sp as have sp0: "specializes \<lparr>assumptions = [], conclusion = f\<rparr> r" by simp
      from r sub have "r \<in> rs'" by auto
      then have l: "lines_ok gamma rs' (new @ [DerivedLine f r []])"
        using sp0 by (intro lines_ok_snoc_axiom [OF ok])
      from step_weakening [OF ok I1 MP l, of f psi]
      have "lines_ok gamma rs'
           (new @ [DerivedLine f r [], DerivedLine (Implies f (Implies psi f)) I1 [],
                   DerivedLine (Implies psi f) MP [length new, length new + 1]])" by simp
      then show ?thesis
        using True DerivedLine as
        by (intro exI [of _ "[DerivedLine f r [], DerivedLine (Implies f (Implies psi f)) I1 [],
                   DerivedLine (Implies psi f) MP [length new, length new + 1]]"])
           (simp add: remove_assumption_step_def Let_def)
    next
      case False
      with R r have rMP: "r = MP" by auto
      from specializes_MP_D [OF sp [unfolded rMP]]
      obtain x where mp: "map (\<lambda>a. line_formula (all ! a)) as = [x, Implies x f]" by auto
      then obtain j k where as: "as = [j, k]" by (cases as; cases "tl as"; cases "tl (tl as)") auto
      from mp as have fj: "line_formula (all ! j) = x" and fk: "line_formula (all ! k) = Implies x f"
        by simp_all
      from lt as have j: "j < i" and k: "k < i" by simp_all
      from m [OF j] fj obtain tj where tj: "mapping j = Some tj" "tj < length new"
        "line_formula (new ! tj) = Implies psi x" by auto
      from m [OF k] fk obtain tk where tk: "mapping k = Some tk" "tk < length new"
        "line_formula (new ! tk) = Implies psi (Implies x f)" by auto
      have jl: "j < length all" using j i by simp
      have nas: "assumptions MP \<noteq> []" by (simp add: MP_def)
      from step_distribution [OF ok D MP tk(2,3) tj(2,3)]
      have "lines_ok gamma rs'
           (new @ [DerivedLine (Implies (Implies psi (Implies x f))
                                  (Implies (Implies psi x) (Implies psi f))) D [],
                   DerivedLine (Implies (Implies psi x) (Implies psi f)) MP [tk, length new],
                   DerivedLine (Implies psi f) MP [tj, length new + 1]])" .
      then show ?thesis
        using DerivedLine as rMP nas jl fj tj(1) tk(1)
        by (intro exI [of _ "[DerivedLine (Implies (Implies psi (Implies x f))
                                  (Implies (Implies psi x) (Implies psi f))) D [],
                   DerivedLine (Implies (Implies psi x) (Implies psi f)) MP [tk, length new],
                   DerivedLine (Implies psi f) MP [tj, length new + 1]]"])
           (simp add: remove_assumption_step_def Let_def)
    qed
  qed
qed

lemma enumerate_drop:
  "i < length xs \<Longrightarrow> enumerate i (drop i xs) = (i, xs ! i) # enumerate (Suc i) (drop (Suc i) xs)"
  by (simp add: Cons_nth_drop_Suc [symmetric])

lemma remove_assumption_loop_ok:
  assumes all: "lines_ok (gamma @ [psi]) rs all"
    and R: "\<forall>r\<in>rs. r = MP \<or> assumptions r = []"
    and sub: "rs \<subseteq> rs'" and MP: "MP \<in> rs'" and I0: "I0 \<in> rs'" and I1: "I1 \<in> rs'"
    and D: "D \<in> rs'"
  shows "removal_invariant psi gamma rs' all i mapping new \<Longrightarrow> i \<le> length all \<Longrightarrow>
         (0 < i \<Longrightarrow> new \<noteq> [] \<and> line_formula (last new) = Implies psi (line_formula (all ! (i - 1)))) \<Longrightarrow>
         \<exists>new'. remove_assumption_loop psi all (enumerate i (drop i all)) mapping new = Inr new' \<and>
           lines_ok gamma rs' new' \<and>
           (all \<noteq> [] \<longrightarrow> new' \<noteq> [] \<and> line_formula (last new') = Implies psi (line_formula (last all)))"
proof (induction "length all - i" arbitrary: i mapping new)
  case 0
  then have i: "i = length all" by simp
  have "all \<noteq> [] \<longrightarrow> new \<noteq> [] \<and> line_formula (last new) = Implies psi (line_formula (last all))"
  proof
    assume ne: "all \<noteq> []"
    then have "0 < i" using i by simp
    have la: "last all = all ! (i - 1)" using ne by (simp add: i last_conv_nth)
    from "0.prems"(3) [OF \<open>0 < i\<close>] show "new \<noteq> [] \<and> line_formula (last new) = Implies psi (line_formula (last all))"
      unfolding la .
  qed
  with "0.prems"(1) show ?case by (simp add: i removal_invariant_def)
next
  case (Suc n)
  then have i: "i < length all" by simp
  from all i have line: "line_ok (gamma @ [psi]) rs all i" by (simp add: lines_ok_def)
  from remove_assumption_step_ok [OF Suc.prems(1) line i R sub MP I0 I1 D]
  obtain extra where st: "remove_assumption_step psi all mapping new (all ! i) = Inr (new @ extra)"
    and ne: "extra \<noteq> []" and ok: "lines_ok gamma rs' (new @ extra)"
    and lf: "line_formula (last (new @ extra)) = Implies psi (line_formula (all ! i))"
    by blast
  let ?new = "new @ extra"
  let ?mapping = "mapping(i \<mapsto> length ?new - 1)"
  have inv: "removal_invariant psi gamma rs' all (Suc i) ?mapping ?new"
    unfolding removal_invariant_def
  proof (intro conjI allI impI)
    show "lines_ok gamma rs' ?new" by (rule ok)
  next
    fix i' assume i': "i' < Suc i"
    show "\<exists>t. ?mapping i' = Some t \<and> t < length ?new \<and>
              line_formula (?new ! t) = Implies psi (line_formula (all ! i'))"
    proof (cases "i' = i")
      case True
      have "?new ! (length ?new - 1) = last ?new" using ne by (simp add: last_conv_nth)
      with lf ne True show ?thesis by simp
    next
      case False
      with i' have "i' < i" by simp
      with Suc.prems(1) obtain t where "mapping i' = Some t" "t < length new"
        "line_formula (new ! t) = Implies psi (line_formula (all ! i'))"
        by (auto simp: removal_invariant_def)
      with False show ?thesis by (simp add: nth_append)
    qed
  qed
  have n: "n = length all - Suc i" using Suc.hyps(2) by simp
  have le: "Suc i \<le> length all" using i by simp
  have lastf: "0 < Suc i \<Longrightarrow> ?new \<noteq> [] \<and>
      line_formula (last ?new) = Implies psi (line_formula (all ! (Suc i - 1)))"
    using ne lf by simp
  from Suc.hyps(1) [OF n inv le lastf]
  show ?case by (simp add: enumerate_drop [OF i] st)
qed

lemma remove_assumption_result:
  assumes v: "is_valid p" and a: "assumptions (statement p) \<noteq> []"
    and R: "\<forall>r\<in>rules p. r = MP \<or> assumptions r = []"
  shows "\<exists>new_lines. remove_assumption p =
           Inr \<lparr>statement = \<lparr>assumptions = butlast (assumptions (statement p)),
                               conclusion = Implies (last (assumptions (statement p)))
                                              (conclusion (statement p))\<rparr>,
                 rules = rules p \<union> {MP, I0, I1, D},
                 lines = new_lines\<rparr> \<and>
           is_valid \<lparr>statement = \<lparr>assumptions = butlast (assumptions (statement p)),
                               conclusion = Implies (last (assumptions (statement p)))
                                              (conclusion (statement p))\<rparr>,
                 rules = rules p \<union> {MP, I0, I1, D},
                 lines = new_lines\<rparr>"
proof -
  let ?gamma = "butlast (assumptions (statement p))"
  let ?psi = "last (assumptions (statement p))"
  let ?rs' = "rules p \<union> {MP, I0, I1, D}"
  from v have ne: "lines p \<noteq> []" and lc: "line_formula (last (lines p)) = conclusion (statement p)"
    and ok: "lines_ok (assumptions (statement p)) (rules p) (lines p)"
    by (simp_all add: is_valid_lines_ok)
  from a have "assumptions (statement p) = ?gamma @ [?psi]" by simp
  with ok have ok': "lines_ok (?gamma @ [?psi]) (rules p) (lines p)" by simp
  have inv: "removal_invariant ?psi ?gamma ?rs' (lines p) 0 Map.empty []"
    by (simp add: removal_invariant_def lines_ok_def)
  from remove_assumption_loop_ok [OF ok' R, of ?rs', OF _ _ _ _ _ inv]
  obtain new' where l: "remove_assumption_loop ?psi (lines p) (enumerate 0 (lines p)) Map.empty [] = Inr new'"
    and ok2: "lines_ok ?gamma ?rs' new'"
    and last: "new' \<noteq> [] \<and> line_formula (last new') = Implies ?psi (line_formula (last (lines p)))"
    using ne by auto
  show ?thesis
    using v a R l ok2 last lc
    by (intro exI [of _ new']) (simp add: remove_assumption_def Let_def is_valid_lines_ok)
qed

text \<open>
  C1. For every valid proof with at least one assumption, the last of which is \<open>psi\<close>,
  with the conclusion \<open>C\<close> and with rules all of which have no assumptions except
  perhaps MP, \<open>remove_assumption\<close> returns a valid proof whose assumptions are the given
  ones without the last, whose conclusion is \<open>(psi -> C)\<close> and whose rules are the given
  rules with MP, I0, I1 and D.
\<close>

theorem remove_assumption_deduction:
  assumes "is_valid p" and "assumptions (statement p) \<noteq> []"
    and "\<forall>r\<in>rules p. r = MP \<or> assumptions r = []"
  shows "\<exists>q. remove_assumption p = Inr q \<and> is_valid q \<and>
           assumptions (statement q) = butlast (assumptions (statement p)) \<and>
           conclusion (statement q)
             = Implies (last (assumptions (statement p))) (conclusion (statement p)) \<and>
           rules q = rules p \<union> {MP, I0, I1, D}"
proof -
  from remove_assumption_result [OF assms]
  obtain new_lines where
    "remove_assumption p =
           Inr \<lparr>statement = \<lparr>assumptions = butlast (assumptions (statement p)),
                               conclusion = Implies (last (assumptions (statement p)))
                                              (conclusion (statement p))\<rparr>,
                 rules = rules p \<union> {MP, I0, I1, D},
                 lines = new_lines\<rparr>"
    and "is_valid \<lparr>statement = \<lparr>assumptions = butlast (assumptions (statement p)),
                               conclusion = Implies (last (assumptions (statement p)))
                                              (conclusion (statement p))\<rparr>,
                 rules = rules p \<union> {MP, I0, I1, D},
                 lines = new_lines\<rparr>"
    by blast
  then show ?thesis by simp
qed

lemma example_proof_rules: "\<forall>r\<in>rules example_proof. r = MP \<or> assumptions r = []"
  by (simp add: example_proof_def example_rule_def)

theorem remove_assumption_deduction_witness:
  "is_valid example_proof \<and> assumptions (statement example_proof) \<noteq> [] \<and>
   (\<exists>q. remove_assumption example_proof = Inr q \<and> is_valid q \<and>
      assumptions (statement q) = [] \<and>
      conclusion (statement q)
        = Implies (Negation (Variable ''q''))
            (Negation (Implies (Variable ''p'') (Variable ''p''))) \<and>
      rules q = rules example_proof \<union> {MP, I0, I1, D})"
proof -
  have h1: "is_valid example_proof" by code_simp
  have h2: "assumptions (statement example_proof) \<noteq> []" by (simp add: example_proof_def)
  from remove_assumption_deduction [OF h1 h2 example_proof_rules]
  obtain q where q: "remove_assumption example_proof = Inr q" "is_valid q"
    "assumptions (statement q) = butlast (assumptions (statement example_proof))"
    "conclusion (statement q)
       = Implies (last (assumptions (statement example_proof))) (conclusion (statement example_proof))"
    "rules q = rules example_proof \<union> {MP, I0, I1, D}"
    by blast
  from q(3) have a: "assumptions (statement q) = []" by (simp add: example_proof_def)
  from q(4) have c: "conclusion (statement q)
        = Implies (Negation (Variable ''q''))
            (Negation (Implies (Variable ''p'') (Variable ''p'')))"
    by (simp add: example_proof_def)
  from h1 h2 q(1,2,5) a c show ?thesis by blast
qed

section \<open>\<open>prove_by_way_of_contradiction\<close>\<close>

lemma contradiction_lines_ok:
  assumes ok: "lines_ok gamma rs ls" and ne: "ls \<noteq> []"
    and lf: "line_formula (last ls) = Implies (Negation formula) (Negation g)"
    and MP: "MP \<in> rs" and I0: "I0 \<in> rs" and N: "N \<in> rs"
    and g: "g = Implies (Variable ''p'') (Variable ''p'')"
  shows "lines_ok gamma rs
           (ls @ [DerivedLine (Implies (Implies (Negation formula) (Negation g)) (Implies g formula)) N [],
                  DerivedLine (Implies g formula) MP [length ls - 1, length ls],
                  DerivedLine g I0 [],
                  DerivedLine formula MP [length ls + 2, length ls + 1]])"
proof -
  let ?n = "DerivedLine (Implies (Implies (Negation formula) (Negation g)) (Implies g formula)) N []"
  let ?m = "DerivedLine (Implies g formula) MP [length ls - 1, length ls]"
  let ?i = "DerivedLine g I0 []"
  have ok1: "lines_ok gamma rs (ls @ [?n])"
    by (rule lines_ok_snoc_axiom [OF ok N specializes_N])
  have a: "line_formula ((ls @ [?n]) ! (length ls - 1)) = Implies (Negation formula) (Negation g)"
    using ne lf by (simp add: nth_append last_conv_nth)
  have b: "line_formula ((ls @ [?n]) ! length ls)
           = Implies (Implies (Negation formula) (Negation g)) (Implies g formula)"
    by simp
  have ok2: "lines_ok gamma rs ((ls @ [?n]) @ [?m])"
  proof (rule lines_ok_snoc_MP [OF ok1 MP])
    show "length ls - 1 < length (ls @ [?n])" by simp
    show "length ls < length (ls @ [?n])" by simp
    show "line_formula ((ls @ [?n]) ! length ls)
          = Implies (line_formula ((ls @ [?n]) ! (length ls - 1))) (Implies g formula)"
      unfolding a b ..
  qed
  have ok3: "lines_ok gamma rs (((ls @ [?n]) @ [?m]) @ [?i])"
    unfolding g by (rule lines_ok_snoc_axiom [OF ok2 [unfolded g] I0 specializes_I0])
  have c: "line_formula ((((ls @ [?n]) @ [?m]) @ [?i]) ! (length ls + 2)) = g"
    using nth_snoc_length [of "(ls @ [?n]) @ [?m]" ?i] by simp
  have d: "line_formula ((((ls @ [?n]) @ [?m]) @ [?i]) ! (length ls + 1)) = Implies g formula"
    using nth_snoc_length [of "ls @ [?n]" ?m] by (simp add: nth_append)
  have "lines_ok gamma rs ((((ls @ [?n]) @ [?m]) @ [?i]) @
          [DerivedLine formula MP [length ls + 2, length ls + 1]])"
  proof (rule lines_ok_snoc_MP [OF ok3 MP])
    show "length ls + 2 < length (((ls @ [?n]) @ [?m]) @ [?i])" by simp
    show "length ls + 1 < length (((ls @ [?n]) @ [?m]) @ [?i])" by simp
    show "line_formula ((((ls @ [?n]) @ [?m]) @ [?i]) ! (length ls + 1))
          = Implies (line_formula ((((ls @ [?n]) @ [?m]) @ [?i]) ! (length ls + 2))) formula"
      unfolding c d ..
  qed
  then show ?thesis by simp
qed

lemma prove_by_way_of_contradiction_result:
  assumes "is_valid p"
    and "conclusion (statement p) = Negation (Implies (Variable ''p'') (Variable ''p''))"
    and "assumptions (statement p) \<noteq> []"
    and "last (assumptions (statement p)) = Negation formula"
    and "\<forall>r\<in>rules p. r = MP \<or> assumptions r = []"
  shows "\<exists>q r. remove_assumption p = Inr r \<and> prove_by_way_of_contradiction p = Inr q \<and>
            is_valid q \<and> conclusion (statement q) = formula \<and>
            assumptions (statement q) = butlast (assumptions (statement p)) \<and>
            rules q = rules p \<union> {MP, I0, I1, D, N} \<and>
            lines q = lines r @
              [DerivedLine (Implies (Implies (Negation formula) (Negation (Implies (Variable ''p'') (Variable ''p'')))) (Implies (Implies (Variable ''p'') (Variable ''p'')) formula)) N [],
               DerivedLine (Implies (Implies (Variable ''p'') (Variable ''p'')) formula) MP [length (lines r) - 1, length (lines r)],
               DerivedLine (Implies (Variable ''p'') (Variable ''p'')) I0 [],
               DerivedLine formula MP [length (lines r) + 2, length (lines r) + 1]]"
proof -
  let ?g = "Implies (Variable ''p'') (Variable ''p'')"
  let ?gamma = "butlast (assumptions (statement p))"
  let ?rs = "rules p \<union> {MP, I0, I1, D, N}"
  from remove_assumption_result [OF assms(1,3,5)]
  obtain ls where r: "remove_assumption p =
           Inr \<lparr>statement = \<lparr>assumptions = ?gamma,
                               conclusion = Implies (last (assumptions (statement p)))
                                              (conclusion (statement p))\<rparr>,
                 rules = rules p \<union> {MP, I0, I1, D}, lines = ls\<rparr>"
    and v: "is_valid \<lparr>statement = \<lparr>assumptions = ?gamma,
                               conclusion = Implies (last (assumptions (statement p)))
                                              (conclusion (statement p))\<rparr>,
                 rules = rules p \<union> {MP, I0, I1, D}, lines = ls\<rparr>"
    by blast
  from v have ne: "ls \<noteq> []"
    and lf: "line_formula (last ls) = Implies (Negation formula) (Negation ?g)"
    and ok: "lines_ok ?gamma (rules p \<union> {MP, I0, I1, D}) ls"
    by (simp_all add: is_valid_lines_ok assms(2,4))
  have ok': "lines_ok ?gamma ?rs ls" by (rule lines_ok_mono [OF ok]) auto
  let ?tail = "[DerivedLine (Implies (Implies (Negation formula) (Negation ?g)) (Implies ?g formula)) N [],
                  DerivedLine (Implies ?g formula) MP [length ls - 1, length ls],
                  DerivedLine ?g I0 [],
                  DerivedLine formula MP [length ls + 2, length ls + 1]]"
  have okq: "lines_ok ?gamma ?rs (ls @ ?tail)"
    by (rule contradiction_lines_ok [OF ok' ne lf]) simp_all
  let ?q = "\<lparr>statement = \<lparr>assumptions = ?gamma, conclusion = formula\<rparr>,
             rules = ?rs, lines = ls @ ?tail\<rparr>"
  have q: "prove_by_way_of_contradiction p = Inr ?q"
    using assms by (simp add: prove_by_way_of_contradiction_def r Let_def) auto
  have vq: "is_valid ?q" using okq by (simp add: is_valid_lines_ok)
  show ?thesis
    using r q vq by (intro exI [of _ ?q] exI [of _ "\<lparr>statement = \<lparr>assumptions = ?gamma,
                               conclusion = Implies (last (assumptions (statement p)))
                                              (conclusion (statement p))\<rparr>,
                 rules = rules p \<union> {MP, I0, I1, D}, lines = ls\<rparr>"]) simp
qed

text \<open>
  C4. For every valid proof of \<open>~(p->p)\<close> whose last assumption is \<open>~formula\<close> and whose
  rules have no assumptions except perhaps MP, \<open>prove_by_way_of_contradiction\<close> returns a
  valid proof of \<open>formula\<close> from the given assumptions without the last, with the given
  rules and MP, I0, I1, D and N. Its lines are the lines of the proof \<open>remove_assumption\<close>
  returns, followed by the line of \<open>((~formula->~(p->p))->((p->p)->formula))\<close> by N, the MP
  line of \<open>((p->p)->formula)\<close>, the line of \<open>(p->p)\<close> by I0 and the MP line of \<open>formula\<close>.
  On the example proof of \<open>~(p->p)\<close> from the single assumption \<open>~q\<close> the result is a valid
  proof of \<open>q\<close> from no assumptions.
\<close>

theorem prove_by_way_of_contradiction_valid:
  assumes "is_valid p"
    and "conclusion (statement p) = Negation (Implies (Variable ''p'') (Variable ''p''))"
    and "assumptions (statement p) \<noteq> []"
    and "last (assumptions (statement p)) = Negation formula"
    and "\<forall>r\<in>rules p. r = MP \<or> assumptions r = []"
  shows "(\<exists>q r. remove_assumption p = Inr r \<and> prove_by_way_of_contradiction p = Inr q \<and>
            is_valid q \<and> conclusion (statement q) = formula \<and>
            assumptions (statement q) = butlast (assumptions (statement p)) \<and>
            rules q = rules p \<union> {MP, I0, I1, D, N} \<and>
            lines q = lines r @
              [DerivedLine
                 (Implies (Implies (Negation formula)
                                   (Negation (Implies (Variable ''p'') (Variable ''p''))))
                          (Implies (Implies (Variable ''p'') (Variable ''p'')) formula)) N [],
               DerivedLine (Implies (Implies (Variable ''p'') (Variable ''p'')) formula) MP
                 [length (lines r) - 1, length (lines r)],
               DerivedLine (Implies (Variable ''p'') (Variable ''p'')) I0 [],
               DerivedLine formula MP [length (lines r) + 2, length (lines r) + 1]]) \<and>
         (\<exists>q. prove_by_way_of_contradiction example_proof = Inr q \<and> is_valid q \<and>
            conclusion (statement q) = Variable ''q'' \<and> assumptions (statement q) = [])"
proof -
  let ?g = "Implies (Variable ''p'') (Variable ''p'')"
  have first: "\<exists>q r. remove_assumption p = Inr r \<and> prove_by_way_of_contradiction p = Inr q \<and>
            is_valid q \<and> conclusion (statement q) = formula \<and>
            assumptions (statement q) = butlast (assumptions (statement p)) \<and>
            rules q = rules p \<union> {MP, I0, I1, D, N} \<and>
            lines q = lines r @
              [DerivedLine (Implies (Implies (Negation formula) (Negation ?g)) (Implies ?g formula)) N [],
               DerivedLine (Implies ?g formula) MP [length (lines r) - 1, length (lines r)],
               DerivedLine ?g I0 [],
               DerivedLine formula MP [length (lines r) + 2, length (lines r) + 1]]"
    by (rule prove_by_way_of_contradiction_result [OF assms])
  have second: "\<exists>q. prove_by_way_of_contradiction example_proof = Inr q \<and> is_valid q \<and>
            conclusion (statement q) = Variable ''q'' \<and> assumptions (statement q) = []"
  proof (cases "prove_by_way_of_contradiction example_proof")
    case (Inl e)
    moreover have "(case prove_by_way_of_contradiction example_proof of Inl e \<Rightarrow> False | Inr q \<Rightarrow> True)"
      by code_simp
    ultimately show ?thesis by simp
  next
    case (Inr q)
    moreover have "(case prove_by_way_of_contradiction example_proof of
                      Inl e \<Rightarrow> False
                    | Inr q \<Rightarrow> is_valid q \<and> conclusion (statement q) = Variable ''q'' \<and>
                               assumptions (statement q) = [])"
      by code_simp
    ultimately show ?thesis by simp
  qed
  from first second show ?thesis by blast
qed

theorem prove_by_way_of_contradiction_valid_witness:
  "is_valid example_proof \<and>
   conclusion (statement example_proof) = Negation (Implies (Variable ''p'') (Variable ''p'')) \<and>
   assumptions (statement example_proof) \<noteq> [] \<and>
   last (assumptions (statement example_proof)) = Negation (Variable ''q'') \<and>
   (\<exists>q. prove_by_way_of_contradiction example_proof = Inr q \<and> is_valid q \<and>
      conclusion (statement q) = Variable ''q'' \<and> assumptions (statement q) = [] \<and>
      rules q = rules example_proof \<union> {MP, I0, I1, D, N} \<and> length (lines q) = 11)"
proof -
  have h1: "is_valid example_proof" by code_simp
  have h2: "conclusion (statement example_proof)
            = Negation (Implies (Variable ''p'') (Variable ''p''))"
    by (simp add: example_proof_def)
  have h3: "assumptions (statement example_proof) \<noteq> []" by (simp add: example_proof_def)
  have h4: "last (assumptions (statement example_proof)) = Negation (Variable ''q'')"
    by (simp add: example_proof_def)
  from prove_by_way_of_contradiction_valid [OF h1 h2 h3 h4 example_proof_rules]
  obtain q r where r: "remove_assumption example_proof = Inr r"
    and q: "prove_by_way_of_contradiction example_proof = Inr q" "is_valid q"
      "conclusion (statement q) = Variable ''q''"
      "assumptions (statement q) = butlast (assumptions (statement example_proof))"
      "rules q = rules example_proof \<union> {MP, I0, I1, D, N}"
    and l: "length (lines q) = length (lines r) + 4"
    by auto
  have "(case remove_assumption example_proof of Inl e \<Rightarrow> False | Inr r \<Rightarrow> length (lines r) = 7)"
    by code_simp
  with r l have len: "length (lines q) = 11" by simp
  from q(4) have a: "assumptions (statement q) = []" by (simp add: example_proof_def)
  from h1 h2 h3 h4 q(1,2,3,5) a len show ?thesis by blast
qed

section \<open>Acyclicity of the proofs the deduction functions return\<close>

lemma prove_from_opposites_result:
  assumes "is_valid proof_of_affirmation" and "is_valid proof_of_negation"
    and "assumptions (statement proof_of_affirmation) = assumptions (statement proof_of_negation)"
    and "Negation (conclusion (statement proof_of_affirmation))
           = conclusion (statement proof_of_negation)"
    and "rules proof_of_affirmation = rules proof_of_negation"
  shows "\<exists>q. prove_from_opposites proof_of_affirmation proof_of_negation c = Inr q \<and> is_valid q \<and>
           conclusion (statement q) = c \<and>
           assumptions (statement q) = assumptions (statement proof_of_affirmation) \<and>
           rules q = rules proof_of_affirmation \<union> {MP, I2}"
proof -
  have s: "is_specialization_of
             \<lparr>assumptions = [],
              conclusion = Implies (conclusion (statement proof_of_negation))
                             (Implies (conclusion (statement proof_of_affirmation)) c)\<rparr> I2"
    unfolding is_specialization_of_iff assms(4) [symmetric] by (rule specializes_I2)
  have e: "prove_from_opposites proof_of_affirmation proof_of_negation c
           = combine_proofs proof_of_negation proof_of_affirmation c I2"
    using assms by (simp add: prove_from_opposites_def)
  from combine_proofs_result [OF assms(2,1) assms(3) [symmetric] assms(5) [symmetric] s]
       combine_proofs_valid [OF assms(2,1) assms(3) [symmetric] assms(5) [symmetric] s]
  show ?thesis unfolding e using assms(3,5) by simp
qed

text \<open>
  C2. In every proof that \<open>prove_corollary\<close>, \<open>combine_proofs\<close>, \<open>remove_assumption\<close>,
  \<open>prove_from_opposites\<close> and \<open>prove_by_way_of_contradiction\<close> return under the
  preconditions they assert, every index a derived line refers to is strictly less than
  the index of the line.
\<close>

theorem returned_proofs_reference_backward:
  "(is_valid antecedent_proof \<and>
    is_specialization_of
      \<lparr>assumptions = [],
       conclusion = Implies (conclusion (statement antecedent_proof)) consequent\<rparr> conditional
    \<longrightarrow> (\<exists>q. prove_corollary antecedent_proof consequent conditional = Inr q \<and>
              references_backward (lines q))) \<and>
   (is_valid p1 \<and> is_valid p2 \<and>
    assumptions (statement p1) = assumptions (statement p2) \<and> rules p1 = rules p2 \<and>
    is_specialization_of
      \<lparr>assumptions = [],
       conclusion = Implies (conclusion (statement p1))
                      (Implies (conclusion (statement p2)) consequent')\<rparr> double_conditional
    \<longrightarrow> (\<exists>q. combine_proofs p1 p2 consequent' double_conditional = Inr q \<and>
              references_backward (lines q))) \<and>
   (is_valid p \<and> assumptions (statement p) \<noteq> [] \<and>
    (\<forall>r\<in>rules p. r = MP \<or> assumptions r = [])
    \<longrightarrow> (\<exists>q. remove_assumption p = Inr q \<and> references_backward (lines q))) \<and>
   (is_valid proof_of_affirmation \<and> is_valid proof_of_negation \<and>
    assumptions (statement proof_of_affirmation) = assumptions (statement proof_of_negation) \<and>
    Negation (conclusion (statement proof_of_affirmation))
      = conclusion (statement proof_of_negation) \<and>
    rules proof_of_affirmation = rules proof_of_negation
    \<longrightarrow> (\<exists>q. prove_from_opposites proof_of_affirmation proof_of_negation c = Inr q \<and>
              references_backward (lines q))) \<and>
   (is_valid p' \<and>
    conclusion (statement p') = Negation (Implies (Variable ''p'') (Variable ''p'')) \<and>
    assumptions (statement p') \<noteq> [] \<and>
    last (assumptions (statement p')) = Negation formula \<and>
    (\<forall>r\<in>rules p'. r = MP \<or> assumptions r = [])
    \<longrightarrow> (\<exists>q. prove_by_way_of_contradiction p' = Inr q \<and> references_backward (lines q)))"
proof (intro conjI impI)
  assume h: "is_valid antecedent_proof \<and>
    is_specialization_of
      \<lparr>assumptions = [],
       conclusion = Implies (conclusion (statement antecedent_proof)) consequent\<rparr> conditional"
  then have v: "is_valid antecedent_proof" and s: "is_specialization_of
      \<lparr>assumptions = [],
       conclusion = Implies (conclusion (statement antecedent_proof)) consequent\<rparr> conditional"
    by simp_all
  from is_valid_references_backward [OF prove_corollary_valid [OF v s]]
       prove_corollary_result [OF v s]
  show "\<exists>q. prove_corollary antecedent_proof consequent conditional = Inr q \<and>
              references_backward (lines q)"
    by simp
next
  assume h: "is_valid p1 \<and> is_valid p2 \<and>
    assumptions (statement p1) = assumptions (statement p2) \<and> rules p1 = rules p2 \<and>
    is_specialization_of
      \<lparr>assumptions = [],
       conclusion = Implies (conclusion (statement p1))
                      (Implies (conclusion (statement p2)) consequent')\<rparr> double_conditional"
  then have h1: "is_valid p1" and h2: "is_valid p2"
    and h3: "assumptions (statement p1) = assumptions (statement p2)"
    and h4: "rules p1 = rules p2"
    and h5: "is_specialization_of
      \<lparr>assumptions = [],
       conclusion = Implies (conclusion (statement p1))
                      (Implies (conclusion (statement p2)) consequent')\<rparr> double_conditional"
    by simp_all
  from is_valid_references_backward [OF combine_proofs_valid [OF h1 h2 h3 h4 h5]]
       combine_proofs_result [OF h1 h2 h3 h4 h5]
  show "\<exists>q. combine_proofs p1 p2 consequent' double_conditional = Inr q \<and>
              references_backward (lines q)"
    by simp
next
  assume h: "is_valid p \<and> assumptions (statement p) \<noteq> [] \<and>
    (\<forall>r\<in>rules p. r = MP \<or> assumptions r = [])"
  then have h1: "is_valid p" and h2: "assumptions (statement p) \<noteq> []"
    and h3: "\<forall>r\<in>rules p. r = MP \<or> assumptions r = []"
    by simp_all
  from remove_assumption_result [OF h1 h2 h3]
  obtain new_lines q where "remove_assumption p = Inr q" "is_valid q" by blast
  then show "\<exists>q. remove_assumption p = Inr q \<and> references_backward (lines q)"
    using is_valid_references_backward by blast
next
  assume h: "is_valid proof_of_affirmation \<and> is_valid proof_of_negation \<and>
    assumptions (statement proof_of_affirmation) = assumptions (statement proof_of_negation) \<and>
    Negation (conclusion (statement proof_of_affirmation))
      = conclusion (statement proof_of_negation) \<and>
    rules proof_of_affirmation = rules proof_of_negation"
  then have h1: "is_valid proof_of_affirmation" and h2: "is_valid proof_of_negation"
    and h3: "assumptions (statement proof_of_affirmation) = assumptions (statement proof_of_negation)"
    and h4: "Negation (conclusion (statement proof_of_affirmation))
               = conclusion (statement proof_of_negation)"
    and h5: "rules proof_of_affirmation = rules proof_of_negation"
    by simp_all
  from prove_from_opposites_result [OF h1 h2 h3 h4 h5, of c]
  show "\<exists>q. prove_from_opposites proof_of_affirmation proof_of_negation c = Inr q \<and>
              references_backward (lines q)"
    using is_valid_references_backward by blast
next
  assume h: "is_valid p' \<and>
    conclusion (statement p') = Negation (Implies (Variable ''p'') (Variable ''p'')) \<and>
    assumptions (statement p') \<noteq> [] \<and>
    last (assumptions (statement p')) = Negation formula \<and>
    (\<forall>r\<in>rules p'. r = MP \<or> assumptions r = [])"
  then have h1: "is_valid p'"
    and h2: "conclusion (statement p') = Negation (Implies (Variable ''p'') (Variable ''p''))"
    and h3: "assumptions (statement p') \<noteq> []"
    and h4: "last (assumptions (statement p')) = Negation formula"
    and h5: "\<forall>r\<in>rules p'. r = MP \<or> assumptions r = []"
    by simp_all
  from prove_by_way_of_contradiction_result [OF h1 h2 h3 h4 h5]
  obtain q where "prove_by_way_of_contradiction p' = Inr q" "is_valid q" by blast
  then show "\<exists>q. prove_by_way_of_contradiction p' = Inr q \<and> references_backward (lines q)"
    using is_valid_references_backward by blast
qed

theorem returned_proofs_reference_backward_witness:
  "(\<exists>q. prove_corollary example_proof (Variable ''z'')
           \<lparr>assumptions = [], conclusion = Implies (Variable ''x'') (Variable ''y'')\<rparr> = Inr q \<and>
         references_backward (lines q)) \<and>
   (\<exists>q. combine_proofs example_assumption_proof example_proof (Variable ''q'')
           example_double_conditional = Inr q \<and>
         references_backward (lines q)) \<and>
   (\<exists>q. remove_assumption example_proof = Inr q \<and> references_backward (lines q)) \<and>
   (\<exists>q. prove_from_opposites example_affirmation_proof example_negation_proof (Variable ''r'')
           = Inr q \<and>
         references_backward (lines q)) \<and>
   (\<exists>q. prove_by_way_of_contradiction example_proof = Inr q \<and> references_backward (lines q))"
proof -
  note t = returned_proofs_reference_backward
    [where antecedent_proof = example_proof and consequent = "Variable ''z''"
       and conditional = "\<lparr>assumptions = [], conclusion = Implies (Variable ''x'') (Variable ''y'')\<rparr>"
       and ?p1.0 = example_assumption_proof and ?p2.0 = example_proof
       and consequent' = "Variable ''q''" and double_conditional = example_double_conditional
       and p = example_proof
       and proof_of_affirmation = example_affirmation_proof
       and proof_of_negation = example_negation_proof and c = "Variable ''r''"
       and p' = example_proof and formula = "Variable ''q''"]
  have v: "is_valid example_proof" by code_simp
  have va: "is_valid example_assumption_proof" by code_simp
  have vf: "is_valid example_affirmation_proof" by code_simp
  have vn: "is_valid example_negation_proof" by code_simp
  have s1: "is_specialization_of
      \<lparr>assumptions = [],
       conclusion = Implies (conclusion (statement example_proof)) (Variable ''z'')\<rparr>
      \<lparr>assumptions = [], conclusion = Implies (Variable ''x'') (Variable ''y'')\<rparr>"
    by code_simp
  have s2: "is_specialization_of
      \<lparr>assumptions = [],
       conclusion = Implies (conclusion (statement example_assumption_proof))
                      (Implies (conclusion (statement example_proof)) (Variable ''q''))\<rparr>
      example_double_conditional"
    by code_simp
  have e1: "assumptions (statement example_assumption_proof) = assumptions (statement example_proof)"
    and e2: "rules example_assumption_proof = rules example_proof"
    and e3: "assumptions (statement example_proof) \<noteq> []"
    and e4: "conclusion (statement example_proof)
             = Negation (Implies (Variable ''p'') (Variable ''p''))"
    and e5: "last (assumptions (statement example_proof)) = Negation (Variable ''q'')"
    by (simp_all add: example_proof_def example_assumption_proof_def)
  have f1: "assumptions (statement example_affirmation_proof)
            = assumptions (statement example_negation_proof)"
    and f2: "Negation (conclusion (statement example_affirmation_proof))
             = conclusion (statement example_negation_proof)"
    and f3: "rules example_affirmation_proof = rules example_negation_proof"
    by (simp_all add: example_affirmation_proof_def example_negation_proof_def)
  from t [THEN conjunct1] v s1
  have a: "\<exists>q. prove_corollary example_proof (Variable ''z'')
           \<lparr>assumptions = [], conclusion = Implies (Variable ''x'') (Variable ''y'')\<rparr> = Inr q \<and>
         references_backward (lines q)" by blast
  from t [THEN conjunct2, THEN conjunct1] va v e1 e2 s2
  have b: "\<exists>q. combine_proofs example_assumption_proof example_proof (Variable ''q'')
           example_double_conditional = Inr q \<and>
         references_backward (lines q)" by blast
  from t [THEN conjunct2, THEN conjunct2, THEN conjunct1] v e3 example_proof_rules
  have c: "\<exists>q. remove_assumption example_proof = Inr q \<and> references_backward (lines q)"
    by blast
  from t [THEN conjunct2, THEN conjunct2, THEN conjunct2, THEN conjunct1] vf vn f1 f2 f3
  have d: "\<exists>q. prove_from_opposites example_affirmation_proof example_negation_proof (Variable ''r'')
           = Inr q \<and>
         references_backward (lines q)" by blast
  from t [THEN conjunct2, THEN conjunct2, THEN conjunct2, THEN conjunct2] v e4 e3 e5
       example_proof_rules
  have e: "\<exists>q. prove_by_way_of_contradiction example_proof = Inr q \<and>
         references_backward (lines q)" by blast
  from a b c d e show ?thesis by blast
qed

section \<open>The soundness engine\<close>

lemma formula_specialization_map_keys:
  "formula_specialization_map g t acc = Some acc' \<Longrightarrow>
   fst ` set acc' = fst ` set acc \<union> set (formula_variables_list g)"
proof (induction g t acc arbitrary: acc' rule: formula_specialization_map.induct)
  case (1 v s acc)
  show ?case
  proof (cases "map_of acc v")
    case None
    with "1.prems" show ?thesis by auto
  next
    case (Some u)
    then have "v \<in> fst ` set acc" by (metis domI dom_map_of_conv_image_fst)
    with Some "1.prems" show ?thesis by (auto split: if_splits)
  qed
next
  case (2 b s acc)
  then show ?case by (auto split: if_splits)
next
  case (3 r g r' s acc)
  then show ?case by (auto split: if_splits)
next
  case (5 r g1 g2 r' s1 s2 acc)
  from "5.prems" obtain acc1 where rr: "r = r'"
    and a1: "formula_specialization_map g1 s1 acc = Some acc1"
    and a2: "formula_specialization_map g2 s2 acc1 = Some acc'"
    by (auto split: if_splits option.splits)
  from "5.IH"(1) [OF rr a1] "5.IH"(2) [OF rr a1 a2] show ?case by auto
qed auto

lemma formulas_specialization_map_keys:
  "formulas_specialization_map gs ts acc = Some acc' \<Longrightarrow>
   fst ` set acc' = fst ` set acc \<union> set (concat (map formula_variables_list gs))"
proof (induction gs ts acc arbitrary: acc' rule: formulas_specialization_map.induct)
  case (2 g gs t ts acc)
  from "2.prems" obtain acc1 where a1: "formula_specialization_map g t acc = Some acc1"
    and a2: "formulas_specialization_map gs ts acc1 = Some acc'"
    by (auto split: option.splits)
  from formula_specialization_map_keys [OF a1] "2.IH" [OF a1 a2] show ?case by auto
qed auto

lemma formula_specialization_map_images:
  "formula_specialization_map g t acc = Some acc' \<Longrightarrow> images_within acc V \<Longrightarrow>
   set (formula_variables_list t) \<subseteq> V \<Longrightarrow> images_within acc' V"
proof (induction g t acc arbitrary: acc' rule: formula_specialization_map.induct)
  case (1 v s acc)
  then show ?case
    unfolding images_within_def by (cases "map_of acc v") (auto split: if_splits)
next
  case (2 b s acc)
  then show ?case by (auto split: if_splits)
next
  case (3 r g r' s acc)
  then show ?case by (auto split: if_splits)
next
  case (5 r g1 g2 r' s1 s2 acc)
  from "5.prems"(1) obtain acc1 where rr: "r = r'"
    and a1: "formula_specialization_map g1 s1 acc = Some acc1"
    and a2: "formula_specialization_map g2 s2 acc1 = Some acc'"
    by (auto split: if_splits option.splits)
  from "5.prems"(3) have s1: "set (formula_variables_list s1) \<subseteq> V"
    and s2: "set (formula_variables_list s2) \<subseteq> V" by auto
  from "5.IH"(2) [OF rr a1 a2 "5.IH"(1) [OF rr a1 "5.prems"(2) s1] s2] show ?case .
qed auto

lemma formulas_specialization_map_images:
  "formulas_specialization_map gs ts acc = Some acc' \<Longrightarrow> images_within acc V \<Longrightarrow>
   \<forall>t\<in>set ts. set (formula_variables_list t) \<subseteq> V \<Longrightarrow> images_within acc' V"
proof (induction gs ts acc arbitrary: acc' rule: formulas_specialization_map.induct)
  case (2 g gs t ts acc)
  from "2.prems"(1) obtain acc1 where a1: "formula_specialization_map g t acc = Some acc1"
    and a2: "formulas_specialization_map gs ts acc1 = Some acc'"
    by (auto split: option.splits)
  from "2.prems"(3) have t: "set (formula_variables_list t) \<subseteq> V"
    and ts: "\<forall>t\<in>set ts. set (formula_variables_list t) \<subseteq> V" by auto
  from "2.IH" [OF a1 a2 formula_specialization_map_images [OF a1 "2.prems"(2) t] ts]
  show ?case .
qed auto

lemma holds_substitute_variables:
  "\<forall>v\<in>set (formula_variables_list g). map_of bad v = Some (holds (s v) model) \<Longrightarrow>
   holds g bad = holds (substitute_variables s g) model"
  by (induction g) auto

lemma map_of_graph: "v \<in> set vs \<Longrightarrow> map_of (map (\<lambda>v. (v, h v)) vs) v = Some (h v)"
  by (induction vs) auto

lemma fold_update_items:
  assumes "distinct vs"
  shows "fold (\<lambda>item new_model. AList.update (fst item) (snd item) new_model)
              (map (\<lambda>v. (v, h v)) vs) [] = map (\<lambda>v. (v, h v)) vs"
proof -
  have "fold (\<lambda>item new_model. AList.update (fst item) (snd item) new_model)
              (map (\<lambda>v. (v, h v)) vs) []
        = fold (\<lambda>v new_model. AList.update v (h v) new_model) vs []"
    by (simp add: fold_map comp_def)
  also have "\<dots> = map (\<lambda>v. (v, h v)) vs"
    using fold_update_fresh [of "\<lambda>v. v" vs "[]" h] assms by simp
  finally show ?thesis .
qed

lemma index_of_Some:
  "x \<in> set xs \<Longrightarrow> \<exists>j. index_of xs x = Some j \<and> j < length xs \<and> xs ! j = x"
  by (induction xs) auto

lemma images_within_lookup:
  "images_within acc V \<Longrightarrow> map_of acc v = Some t \<Longrightarrow> set (formula_variables_list t) \<subseteq> V"
  unfolding images_within_def by (auto dest: map_of_SomeD)

lemma rule_nonsoundness_result:
  assumes sp: "is_specialization_of S G" and m: "is_model model"
    and cov: "\<forall>t\<in>set (assumptions S @ [conclusion S]).
                set (formula_variables_list t) \<subseteq> set (map fst model)"
  shows "\<exists>sm. specialization_map G S = Some sm \<and>
           rule_nonsoundness_from_specialization_nonsoundness G S model
             = Inr (map (\<lambda>v. (v, holds (substitution_of sm v) model)) (rule_variables G)) \<and>
           map (substitute_variables (substitution_of sm)) (assumptions G) = assumptions S \<and>
           substitute_variables (substitution_of sm) (conclusion G) = conclusion S"
proof -
  from sp obtain sm where sm: "specialization_map G S = Some sm"
    by (auto simp: is_specialization_of_def)
  then have f: "formulas_specialization_map (assumptions G @ [conclusion G])
                  (assumptions S @ [conclusion S]) [] = Some sm"
    by (simp add: specialization_map_def)
  from formulas_specialization_map_keys [OF f]
  have keys: "fst ` set sm = set (rule_variables G)" by (simp add: rule_variables_def)
  have "images_within [] (set (map fst model))" by (simp add: images_within_def)
  from formulas_specialization_map_images [OF f this cov]
  have img: "images_within sm (set (map fst model))" .
  from formulas_specialization_map_sound [OF f agrees_substitution_of]
  have sub: "map (substitute_variables (substitution_of sm)) (assumptions G @ [conclusion G])
             = assumptions S @ [conclusion S]" by simp
  have lookup: "\<And>var. var \<in> set (rule_variables G) \<Longrightarrow>
      (case map_of sm var of
         None \<Rightarrow> Inl KeyError
       | Some formula_to_eval \<Rightarrow>
           (case evaluate formula_to_eval model of Inl e \<Rightarrow> Inl e | Inr b \<Rightarrow> Inr (var, b)))
      = Inr (var, holds (substitution_of sm var) model)"
  proof -
    fix var assume "var \<in> set (rule_variables G)"
    with keys obtain t where t: "map_of sm var = Some t"
      by (metis domD dom_map_of_conv_image_fst)
    from images_within_lookup [OF img t] m
    have "evaluate t model = Inr (holds t model)" by (simp add: evaluate_eq)
    with t show "(case map_of sm var of
         None \<Rightarrow> Inl KeyError
       | Some formula_to_eval \<Rightarrow>
           (case evaluate formula_to_eval model of Inl e \<Rightarrow> Inl e | Inr b \<Rightarrow> Inr (var, b)))
      = Inr (var, holds (substitution_of sm var) model)"
      by (simp add: substitution_of_def)
  qed
  have c: "collect (map (\<lambda>var.
             case map_of sm var of
               None \<Rightarrow> Inl KeyError
             | Some formula_to_eval \<Rightarrow>
                 (case evaluate formula_to_eval model of Inl e \<Rightarrow> Inl e | Inr b \<Rightarrow> Inr (var, b)))
           (rule_variables G))
        = Inr (map (\<lambda>v. (v, holds (substitution_of sm v) model)) (rule_variables G))"
    by (rule collect_cong_Inr) (rule lookup)
  have d: "distinct (rule_variables G)" by (simp add: rule_variables_def)
  have "rule_nonsoundness_from_specialization_nonsoundness G S model
             = Inr (map (\<lambda>v. (v, holds (substitution_of sm v) model)) (rule_variables G))"
    using sp m
    by (simp add: rule_nonsoundness_from_specialization_nonsoundness_def evaluate_inference_def
        truthy_def sm c fold_update_items [OF d])
  with sm sub show ?thesis by (simp add: map_append_single_eq)
qed

lemma holds_bad_model:
  assumes "set (formula_variables_list g) \<subseteq> set vs"
  shows "holds g (map (\<lambda>v. (v, holds (s v) model)) vs) = holds (substitute_variables s g) model"
proof (rule holds_substitute_variables, rule ballI)
  fix v assume "v \<in> set (formula_variables_list g)"
  with assms have "v \<in> set vs" by auto
  then show "map_of (map (\<lambda>v. (v, holds (s v) model)) vs) v = Some (holds (s v) model)"
    by (rule map_of_graph)
qed

lemma bad_model_falsifies:
  assumes a: "map (substitute_variables s) (assumptions G) = assumptions S"
    and c: "substitute_variables s (conclusion G) = conclusion S"
    and ha: "list_all (\<lambda>a. holds a model) (assumptions S)" and hc: "\<not> holds (conclusion S) model"
  shows "list_all (\<lambda>a. holds a (map (\<lambda>v. (v, holds (s v) model)) (rule_variables G)))
           (assumptions G) \<and>
         \<not> holds (conclusion G) (map (\<lambda>v. (v, holds (s v) model)) (rule_variables G))"
proof
  let ?bad = "map (\<lambda>v. (v, holds (s v) model)) (rule_variables G)"
  show "list_all (\<lambda>a. holds a ?bad) (assumptions G)"
    unfolding list_all_iff
  proof
    fix g assume g: "g \<in> set (assumptions G)"
    then have "set (formula_variables_list g) \<subseteq> set (rule_variables G)"
      by (auto simp: rule_variables_def)
    from holds_bad_model [OF this]
    have "holds g ?bad = holds (substitute_variables s g) model" .
    moreover have "substitute_variables s g \<in> set (assumptions S)"
      using g a by (metis image_eqI set_map)
    ultimately show "holds g ?bad" using ha by (simp add: list_all_iff)
  qed
  have "set (formula_variables_list (conclusion G)) \<subseteq> set (rule_variables G)"
    by (auto simp: rule_variables_def)
  from holds_bad_model [OF this] c hc show "\<not> holds (conclusion G) ?bad" by simp
qed

lemma nonsound_loop_skip:
  assumes m: "is_model model"
    and t: "\<forall>l\<in>set pre. holds (line_formula l) model \<and>
              set (formula_variables_list (line_formula l)) \<subseteq> set (map fst model)"
  shows "nonsound_rule_of_nonsound_proof_loop p model (pre @ rest)
         = nonsound_rule_of_nonsound_proof_loop p model rest"
  using t
proof (induction pre)
  case Nil
  then show ?case by simp
next
  case (Cons l pre)
  then have "evaluate (line_formula l) model = Inr True"
    using m by (simp add: evaluate_eq)
  with Cons show ?case by (cases l) simp_all
qed

lemma evaluate_True_iff:
  "(evaluate f model = Inr True) =
     (is_model model \<and> set (formula_variables_list f) \<subseteq> set (map fst model) \<and> holds f model)"
  by (auto simp add: evaluate_eq)

text \<open>
  C6, as amended. For every valid proof whose statement does not hold in the given
  model, \<open>nonsound_rule_of_nonsound_proof\<close> walks the lines in order. Every line before the
  first line whose formula does not evaluate to true evaluates to true, so the assertion
  on the assumption lines passes there. At that first line either \<open>evaluate\<close> fails its
  assertion (the dict is not a model, or does not cover the variables of the formula) and
  the function fails with that assertion violation, or the line is a derived line whose
  formula evaluates to false and the function returns the pair of the rule of that line
  and the model that \<open>rule_nonsoundness_from_specialization_nonsoundness\<close> returns for that
  rule and the specialization \<open>rule_for_line\<close> gives: a model over the variables of the
  rule, in which the rule does not hold. The function returns no other value: when no
  line whose formula evaluates to false is found, it fails with an assertion violation
  and does not return \<open>None\<close>.
\<close>

theorem nonsound_rule_of_nonsound_proof_finds_rule:
  assumes v: "is_valid p"
    and nh: "\<not> evaluate_inference_contract (statement p) model"
  shows "(\<exists>i<length (lines p).
            (\<forall>i'<i. evaluate (line_formula (lines p ! i')) model = Inr True) \<and>
            ((evaluate (line_formula (lines p ! i)) model = Inl AssertionError \<and>
              nonsound_rule_of_nonsound_proof p model = Inl AssertionError) \<or>
             (\<exists>f general as specialization bad_model.
                lines p ! i = DerivedLine f general as \<and>
                evaluate f model = Inr False \<and>
                general \<in> rules p \<and>
                rule_for_line p i = Some specialization \<and>
                rule_nonsoundness_from_specialization_nonsoundness general specialization model
                  = Inr bad_model \<and>
                nonsound_rule_of_nonsound_proof p model = Inr (Some (general, bad_model)) \<and>
                map fst bad_model = rule_variables general \<and>
                \<not> evaluate_inference_contract general bad_model))) \<and>
         nonsound_rule_of_nonsound_proof p model \<noteq> Inr None"
proof -
  let ?ls = "lines p"
  let ?res = "nonsound_rule_of_nonsound_proof p model"
  let ?Q = "\<lambda>i. i < length ?ls \<and> evaluate (line_formula (?ls ! i)) model \<noteq> Inr True"
  from nh have ha: "list_all (\<lambda>a. holds a model) (assumptions (statement p))"
    and hc: "\<not> holds (conclusion (statement p)) model"
    by (auto simp: evaluate_inference_contract_def split: if_splits)
  from v have ne: "?ls \<noteq> []" and lc: "line_formula (last ?ls) = conclusion (statement p)"
    and ok: "lines_ok (assumptions (statement p)) (rules p) ?ls"
    by (simp_all add: is_valid_lines_ok)
  have "?Q (length ?ls - 1)" using ne lc hc by (simp add: last_conv_nth evaluate_True_iff)
  then have ex: "\<exists>i. ?Q i" ..
  define i where "i = (LEAST i. ?Q i)"
  have Qi: "?Q i" unfolding i_def by (rule LeastI_ex [OF ex])
  then have il: "i < length ?ls" and nt: "evaluate (line_formula (?ls ! i)) model \<noteq> Inr True"
    by simp_all
  have evt: "\<forall>i'<i. evaluate (line_formula (?ls ! i')) model = Inr True"
  proof (intro allI impI)
    fix i' assume l: "i' < i"
    then have "\<not> ?Q i'" unfolding i_def by (rule not_less_Least)
    with l il show "evaluate (line_formula (?ls ! i')) model = Inr True" by simp
  qed
  have split: "?ls = take i ?ls @ (?ls ! i) # drop (Suc i) ?ls"
    using il by (simp add: id_take_nth_drop [symmetric])
  have main: "(evaluate (line_formula (?ls ! i)) model = Inl AssertionError \<and>
              ?res = Inl AssertionError) \<or>
             (\<exists>f general as specialization bad_model.
                ?ls ! i = DerivedLine f general as \<and>
                evaluate f model = Inr False \<and>
                general \<in> rules p \<and>
                rule_for_line p i = Some specialization \<and>
                rule_nonsoundness_from_specialization_nonsoundness general specialization model
                  = Inr bad_model \<and>
                ?res = Inr (Some (general, bad_model)) \<and>
                map fst bad_model = rule_variables general \<and>
                \<not> evaluate_inference_contract general bad_model)"
  proof (cases "is_model model")
    case False
    then have "evaluate (line_formula (?ls ! i)) model = Inl AssertionError"
      by (simp add: evaluate_eq)
    moreover have "?res = Inl AssertionError"
      using v False by (simp add: nonsound_rule_of_nonsound_proof_def evaluate_inference_def)
    ultimately show ?thesis by simp
  next
    case m: True
    have earlier: "\<And>k. k < i \<Longrightarrow> holds (line_formula (?ls ! k)) model \<and>
              set (formula_variables_list (line_formula (?ls ! k))) \<subseteq> set (map fst model)"
      using evt by (simp add: evaluate_True_iff)
    have pre: "\<forall>l\<in>set (take i ?ls). holds (line_formula l) model \<and>
              set (formula_variables_list (line_formula l)) \<subseteq> set (map fst model)"
    proof
      fix l assume "l \<in> set (take i ?ls)"
      then obtain k where k: "k < i" "l = ?ls ! k"
        using il by (auto simp: in_set_conv_nth)
      with earlier [OF k(1)]
      show "holds (line_formula l) model \<and>
              set (formula_variables_list (line_formula l)) \<subseteq> set (map fst model)" by simp
    qed
    have loop: "nonsound_rule_of_nonsound_proof_loop p model ?ls
        = nonsound_rule_of_nonsound_proof_loop p model ((?ls ! i) # drop (Suc i) ?ls)"
      using nonsound_loop_skip [OF m pre, of p "(?ls ! i) # drop (Suc i) ?ls"] split by simp
    have res: "?res = nonsound_rule_of_nonsound_proof_loop p model ((?ls ! i) # drop (Suc i) ?ls)"
      using v m loop
      by (simp add: nonsound_rule_of_nonsound_proof_def evaluate_inference_def truthy_def)
    show ?thesis
    proof (cases "set (formula_variables_list (line_formula (?ls ! i))) \<subseteq> set (map fst model)")
      case False
      then have e: "evaluate (line_formula (?ls ! i)) model = Inl AssertionError"
        by (simp add: evaluate_eq)
      then have "?res = Inl AssertionError" unfolding res by simp
      with e show ?thesis by simp
    next
      case ci: True
      with m nt have nf: "\<not> holds (line_formula (?ls ! i)) model"
        by (simp add: evaluate_True_iff)
      from ok il have lok: "line_ok (assumptions (statement p)) (rules p) ?ls i"
        by (simp add: lines_ok_def)
      obtain f general as where line: "?ls ! i = DerivedLine f general as"
      proof (cases "?ls ! i")
        case (AssumptionLine g)
        with lok have "g \<in> set (assumptions (statement p))" by (simp add: line_ok_def)
        with ha have "holds g model" by (simp add: list_all_iff)
        with nf AssumptionLine show ?thesis by simp
      next
        case (DerivedLine f general as)
        then show ?thesis by (rule that)
      qed
      let ?S = "\<lparr>assumptions = map (\<lambda>a. line_formula (?ls ! a)) as, conclusion = f\<rparr>"
      from lok line have g: "general \<in> rules p" and lt: "\<forall>a\<in>set as. a < i"
        and sp: "specializes ?S general"
        by (simp_all add: line_ok_def)
      have rfl: "rule_for_line p i = Some ?S" by (simp add: rule_for_line_def line)
      have covS: "\<forall>t\<in>set (assumptions ?S @ [conclusion ?S]).
                set (formula_variables_list t) \<subseteq> set (map fst model)"
      proof
        fix t assume "t \<in> set (assumptions ?S @ [conclusion ?S])"
        then consider a where "a \<in> set as" "t = line_formula (?ls ! a)" | "t = f" by auto
        then show "set (formula_variables_list t) \<subseteq> set (map fst model)"
        proof cases
          case 1
          with lt have "a < i" by auto
          from earlier [OF this] 1 show ?thesis by simp
        next
          case 2
          with ci line show ?thesis by simp
        qed
      qed
      from rule_nonsoundness_result [OF sp [folded is_specialization_of_iff] m covS]
      obtain sm where
        bad: "rule_nonsoundness_from_specialization_nonsoundness general ?S model
             = Inr (map (\<lambda>v. (v, holds (substitution_of sm v) model)) (rule_variables general))"
        and sa: "map (substitute_variables (substitution_of sm)) (assumptions general) = assumptions ?S"
        and sc: "substitute_variables (substitution_of sm) (conclusion general) = conclusion ?S"
        by blast
      let ?bad = "map (\<lambda>v. (v, holds (substitution_of sm v) model)) (rule_variables general)"
      have haS: "list_all (\<lambda>a. holds a model) (assumptions ?S)"
        using lt earlier by (auto simp: list_all_iff)
      have hcS: "\<not> holds (conclusion ?S) model" using nf line by simp
      from bad_model_falsifies [OF sa sc haS hcS]
      have fals: "\<not> evaluate_inference_contract general ?bad"
        by (simp add: evaluate_inference_contract_def)
      have keys: "map fst ?bad = rule_variables general" by (simp add: comp_def)
      have evf: "evaluate f model = Inr False"
        using m ci nf line by (simp add: evaluate_eq)
      have mem: "?ls ! i \<in> set ?ls" using il by simp
      from index_of_Some [OF mem] obtain j where j: "index_of ?ls (?ls ! i) = Some j"
        "j < length ?ls" "?ls ! j = ?ls ! i" by blast
      have rflj: "rule_for_line p j = Some ?S" by (simp add: rule_for_line_def j(3) line)
      have "?res = Inr (Some (general, ?bad))"
        unfolding res using j(1) by (simp add: line evf rflj bad)
      with line evf g rfl bad keys fals show ?thesis by blast
    qed
  qed
  from main have "?res \<noteq> Inr None" by auto
  with il evt main show ?thesis by blast
qed

theorem nonsound_rule_of_nonsound_proof_finds_rule_witness:
  "is_valid unsound_proof \<and>
   \<not> evaluate_inference_contract (statement unsound_proof) [(''q'', False), (''r'', True)] \<and>
   nonsound_rule_of_nonsound_proof unsound_proof [(''q'', False), (''r'', True)]
     = Inr (Some (unsound_rule, [(''p'', True), (''q'', False)])) \<and>
   \<not> evaluate_inference_contract unsound_rule [(''p'', True), (''q'', False)]"
proof -
  let ?m = "[(''q'', False), (''r'', True)]"
  have h1: "is_valid unsound_proof" by code_simp
  have h2: "\<not> evaluate_inference_contract (statement unsound_proof) ?m" by code_simp
  have c: "nonsound_rule_of_nonsound_proof unsound_proof ?m
           = Inr (Some (unsound_rule, [(''p'', True), (''q'', False)]))"
    by code_simp
  from nonsound_rule_of_nonsound_proof_finds_rule [OF h1 h2]
  have "nonsound_rule_of_nonsound_proof unsound_proof ?m = Inl AssertionError \<or>
        (\<exists>general bad_model.
           nonsound_rule_of_nonsound_proof unsound_proof ?m = Inr (Some (general, bad_model)) \<and>
           \<not> evaluate_inference_contract general bad_model)"
    by blast
  with c have "\<not> evaluate_inference_contract unsound_rule [(''p'', True), (''q'', False)]"
    by auto
  with h1 h2 c show ?thesis by blast
qed

text \<open>
  C6 as stated fails where a line before the first false derived line is not covered by
  the model: the statement of the example proof, with the conclusion \<open>q\<close> and no
  assumptions, does not hold in the model \<open>{q: False}\<close>, which covers its variables, and
  the second line is the first derived line whose formula evaluates to false; but the
  first line has the formula \<open>r\<close>, on which \<open>evaluate\<close> fails its assertion, and the
  function fails with it and returns no pair.
\<close>

theorem nonsound_rule_of_nonsound_proof_counterexample:
  "is_valid unsound_proof \<and> is_model [(''q'', False)] \<and>
   set (rule_variables (statement unsound_proof)) \<subseteq> set (map fst [(''q'', False)]) \<and>
   \<not> evaluate_inference_contract (statement unsound_proof) [(''q'', False)] \<and>
   evaluate (line_formula (lines unsound_proof ! 1)) [(''q'', False)] = Inr False \<and>
   evaluate (line_formula (lines unsound_proof ! 0)) [(''q'', False)] = Inl AssertionError \<and>
   nonsound_rule_of_nonsound_proof unsound_proof [(''q'', False)] = Inl AssertionError"
  by code_simp

end
